theory Spec2Isabelle
  imports Complex_Main
begin

section \<open>The midpoint rule of the integration tutorial\<close>

text \<open>
  The notebook defines one function:
  \<^verbatim>\<open>
  def integrate_midpoint(f, a, b, n):
      x = np.linspace(a, b, num=n+1)
      dx = (b-a)/n

      integral = 0
      for j in range(n):
          xmid = (x[j] + x[j+1])/2
          integral += f(xmid)*dx

      return integral
  \<close>
  The bounds \<open>a\<close>, \<open>b\<close> are Python floats and \<open>n\<close> is a Python \<open>int\<close>, as in the
  notebook's call \<open>integrate_midpoint(np.sin, 0, np.pi, 1000)\<close>. The integrand is a Python
  callable: it returns a float or raises, so it is a function into a sum type.
\<close>

subsection \<open>Floating-point arithmetic\<close>

text \<open>
  A finite float is modelled by the real number it denotes. Every arithmetic operation on
  floats is the exact operation on reals followed by a rounding function \<open>rnd\<close>, which is a
  parameter of the model. Two instances are used:
  \<^item> \<open>exact\<close>, no rounding: the arithmetic of the specification, which states its results
    up to floating-point rounding;
  \<^item> \<open>binary64\<close>, rounding to the nearest number with a 53-bit significand, ties to even:
    the arithmetic of Python floats and NumPy \<open>float64\<close> as long as no operation overflows
    or underflows.
  The non-finite values (inf, nan) are outside the model.
\<close>

definition exact :: "real \<Rightarrow> real" where
  "exact x = x"

definition round_half_even :: "real \<Rightarrow> int" where
  "round_half_even x =
     (let fl = \<lfloor>x\<rfloor>; d = x - real_of_int fl
      in if d < 1 / 2 then fl
         else if 1 / 2 < d then fl + 1
         else if even fl then fl else fl + 1)"

definition binary64 :: "real \<Rightarrow> real" where
  "binary64 x =
     (if x = 0 then 0
      else
        let e = \<lfloor>log 2 \<bar>x\<bar>\<rfloor>;
            ulp = 2 powi (e - 52)
        in real_of_int (round_half_even (x / ulp)) * ulp)"

subsection \<open>Exceptions\<close>

text \<open>
  The exceptions that can leave the function: \<open>ValueError\<close> from \<open>np.linspace\<close>,
  \<open>ZeroDivisionError\<close> from the division of Python numbers, \<open>IndexError\<close> from indexing
  the grid, and whatever the integrand raises, carried unchanged.
\<close>

datatype 'e error = ValueError | ZeroDivisionError | IndexError | IntegrandError 'e

subsection \<open>The library operations the function calls\<close>

text \<open>
  \<open>np.linspace(start, stop, num)\<close> with the default \<open>endpoint=True\<close>, after NumPy's
  implementation:
  \<^verbatim>\<open>
  if num < 0: raise ValueError(...)
  div = num - 1
  y = arange(0, num)
  delta = stop - start
  if div > 0:
      step = delta / div
      if step == 0: y = y / div; y = y * delta
      else:         y = y * step
  else:
      y = y * delta
  y += start
  if num > 1: y[-1] = stop
  \<close>
\<close>

definition linspace_scale :: "(real \<Rightarrow> real) \<Rightarrow> real \<Rightarrow> int \<Rightarrow> nat \<Rightarrow> real" where
  "linspace_scale rnd delta div' i =
     (if div' > 0
      then (let step = rnd (delta / real_of_int div')
            in if step = 0
               then rnd (rnd (real i / real_of_int div') * delta)
               else rnd (real i * step))
      else rnd (real i * delta))"

definition linspace_points :: "(real \<Rightarrow> real) \<Rightarrow> real \<Rightarrow> real \<Rightarrow> int \<Rightarrow> real list" where
  "linspace_points rnd start stop num =
     (let div' = num - 1;
          delta = rnd (stop - start);
          y = map (\<lambda>i. rnd (linspace_scale rnd delta div' i + start)) [0..<nat num]
      in if num > 1 then y[nat num - 1 := stop] else y)"

definition linspace :: "(real \<Rightarrow> real) \<Rightarrow> real \<Rightarrow> real \<Rightarrow> int \<Rightarrow> 'e error + real list" where
  "linspace rnd start stop num =
     (if num < 0 then Inl ValueError else Inr (linspace_points rnd start stop num))"

text \<open>True division of a Python float by a Python int.\<close>

definition truediv :: "(real \<Rightarrow> real) \<Rightarrow> real \<Rightarrow> int \<Rightarrow> 'e error + real" where
  "truediv rnd p q = (if q = 0 then Inl ZeroDivisionError else Inr (rnd (p / real_of_int q)))"

text \<open>Indexing an array with a non-negative index.\<close>

definition getitem :: "real list \<Rightarrow> nat \<Rightarrow> 'e error + real" where
  "getitem x j = (if j < length x then Inr (x ! j) else Inl IndexError)"

text \<open>\<open>range(n)\<close> is empty for \<open>n \<le> 0\<close>.\<close>

definition range_py :: "int \<Rightarrow> nat list" where
  "range_py n = [0..<nat n]"

subsection \<open>The loop and the function\<close>

text \<open>
  The loop's state is the accumulator \<open>integral\<close>. The field \<open>evals\<close> is a ghost
  variable: the arguments at which the integrand has been called so far, in call order.
\<close>

record loop_state =
  integral :: real
  evals :: "real list"

fun midpoint_loop ::
  "(real \<Rightarrow> real) \<Rightarrow> (real \<Rightarrow> 'e + real) \<Rightarrow> real list \<Rightarrow> real \<Rightarrow> nat list \<Rightarrow> loop_state
     \<Rightarrow> 'e error + loop_state"
where
  "midpoint_loop rnd f x dx [] s = Inr s"
| "midpoint_loop rnd f x dx (j # js) s =
     (case getitem x j of
        Inl e \<Rightarrow> Inl e
      | Inr xj \<Rightarrow>
          (case getitem x (j + 1) of
             Inl e \<Rightarrow> Inl e
           | Inr xj1 \<Rightarrow>
               (let xmid = rnd (rnd (xj + xj1) / 2) in
                case f xmid of
                  Inl e \<Rightarrow> Inl (IntegrandError e)
                | Inr v \<Rightarrow>
                    midpoint_loop rnd f x dx js
                      \<lparr>integral = rnd (integral s + rnd (v * dx)), evals = evals s @ [xmid]\<rparr>)))"

definition integrate_midpoint_run ::
  "(real \<Rightarrow> real) \<Rightarrow> (real \<Rightarrow> 'e + real) \<Rightarrow> real \<Rightarrow> real \<Rightarrow> int \<Rightarrow> 'e error + loop_state"
where
  "integrate_midpoint_run rnd f a b n =
     (case linspace rnd a b (n + 1) of
        Inl e \<Rightarrow> Inl e
      | Inr x \<Rightarrow>
          (case truediv rnd (rnd (b - a)) n of
             Inl e \<Rightarrow> Inl e
           | Inr dx \<Rightarrow> midpoint_loop rnd f x dx (range_py n) \<lparr>integral = 0, evals = []\<rparr>))"

definition integrate_midpoint ::
  "(real \<Rightarrow> real) \<Rightarrow> (real \<Rightarrow> 'e + real) \<Rightarrow> real \<Rightarrow> real \<Rightarrow> int \<Rightarrow> 'e error + real"
where
  "integrate_midpoint rnd f a b n = map_sum id integral (integrate_midpoint_run rnd f a b n)"

text \<open>An integrand that never raises.\<close>

definition pure_integrand :: "(real \<Rightarrow> real) \<Rightarrow> real \<Rightarrow> 'e + real" where
  "pure_integrand g x = Inr (g x)"

text \<open>
  The width \<open>dx\<close> the function computes, the point at which iteration \<open>j\<close> calls the
  integrand, and the accumulation of the loop over a returning integrand.
\<close>

definition width :: "(real \<Rightarrow> real) \<Rightarrow> real \<Rightarrow> real \<Rightarrow> int \<Rightarrow> real" where
  "width rnd a b n = rnd (rnd (b - a) / real_of_int n)"

definition cell_mid :: "(real \<Rightarrow> real) \<Rightarrow> real list \<Rightarrow> nat \<Rightarrow> real" where
  "cell_mid rnd x j = rnd (rnd (x ! j + x ! (j + 1)) / 2)"

definition eval_point :: "(real \<Rightarrow> real) \<Rightarrow> real \<Rightarrow> real \<Rightarrow> int \<Rightarrow> nat \<Rightarrow> real" where
  "eval_point rnd a b n j = cell_mid rnd (linspace_points rnd a b (n + 1)) j"

definition accumulate :: "(real \<Rightarrow> real) \<Rightarrow> (nat \<Rightarrow> real) \<Rightarrow> real \<Rightarrow> nat list \<Rightarrow> real" where
  "accumulate rnd term s js = foldl (\<lambda>acc j. rnd (acc + term j)) s js"

subsection \<open>The rule as the specification words it\<close>

text \<open>
  The step width \<open>\<Delta>x = (b - a) / n\<close>, the left endpoint \<open>x\<^sub>j = a + j \<Delta>x\<close>, the midpoint
  \<open>x\<^sub>j + \<Delta>x / 2\<close> and the sum of \<open>f(midpoint) \<Delta>x\<close>, accumulated from zero in ascending
  order of \<open>j\<close>. They are compared with the code below.
\<close>

definition step_width :: "real \<Rightarrow> real \<Rightarrow> int \<Rightarrow> real" where
  "step_width a b n = (b - a) / real_of_int n"

definition left_endpoint :: "real \<Rightarrow> real \<Rightarrow> int \<Rightarrow> nat \<Rightarrow> real" where
  "left_endpoint a b n j = a + real j * step_width a b n"

definition midpoint :: "real \<Rightarrow> real \<Rightarrow> int \<Rightarrow> nat \<Rightarrow> real" where
  "midpoint a b n j = left_endpoint a b n j + step_width a b n / 2"

definition midpoint_sum :: "(real \<Rightarrow> real) \<Rightarrow> real \<Rightarrow> real \<Rightarrow> int \<Rightarrow> real" where
  "midpoint_sum g a b n =
     foldl (\<lambda>acc j. acc + g (midpoint a b n j) * step_width a b n) 0 [0..<nat n]"

text \<open>The grid of \<open>n + 1\<close> endpoints \<open>x\<^sub>0, \<dots>, x\<^sub>n\<close> of the specification.\<close>

definition uniform_grid :: "real \<Rightarrow> real \<Rightarrow> int \<Rightarrow> real list" where
  "uniform_grid a b n = map (left_endpoint a b n) [0..<nat n + 1]"

subsection \<open>The convergence check\<close>

text \<open>
  The notebook's last cell:
  \<^verbatim>\<open>
  nvals = np.arange(10, 1010, 10)
  integrals = np.array([integrate_midpoint(np.sin, 0, np.pi, n) for n in nvals])
  error = np.abs(2 - integrals)

  powerlaw_index = np.polyfit(np.log(nvals), np.log(error), 1)[0]
  \<close>
  The list comprehension ends with the first exception of a call. The calls of the
  integrator and the subtraction \<open>2 - integrals\<close> round with \<open>rnd\<close>; the library functions
  \<open>np.sin\<close> and \<open>np.log\<close> and the constant \<open>np.pi\<close> are parameters. \<open>np.polyfit(x, y, 1)[0]\<close>
  is the slope of the least-squares line through the points \<open>(x\<^sub>i, y\<^sub>i)\<close>: it is modelled by
  the solution of the normal equations in exact arithmetic.
\<close>

definition nvals :: "int list" where
  "nvals = map (\<lambda>i. 10 + 10 * int i) [0..<100]"

fun collect :: "('e + 'a) list \<Rightarrow> 'e + 'a list" where
  "collect [] = Inr []"
| "collect (r # rs) =
     (case r of
        Inl e \<Rightarrow> Inl e
      | Inr v \<Rightarrow> (case collect rs of Inl e \<Rightarrow> Inl e | Inr vs \<Rightarrow> Inr (v # vs)))"

definition polyfit1_slope :: "real list \<Rightarrow> real list \<Rightarrow> real" where
  "polyfit1_slope xs ys =
     (let n = real (length xs);
          sx = sum_list xs;
          sy = sum_list ys;
          sxx = sum_list (map2 (*) xs xs);
          sxy = sum_list (map2 (*) xs ys)
      in (n * sxy - sx * sy) / (n * sxx - sx * sx))"

definition powerlaw_index ::
  "(real \<Rightarrow> real) \<Rightarrow> (real \<Rightarrow> real) \<Rightarrow> (real \<Rightarrow> real) \<Rightarrow> real \<Rightarrow> 'e error + real"
where
  "powerlaw_index rnd np_sin np_log np_pi =
     (case collect (map (\<lambda>n. integrate_midpoint rnd (pure_integrand np_sin) 0 np_pi n) nvals) of
        Inl e \<Rightarrow> Inl e
      | Inr integrals \<Rightarrow>
          (let error = map (\<lambda>v. \<bar>rnd (2 - v)\<bar>) integrals
           in Inr (polyfit1_slope (map (\<lambda>n. np_log (real_of_int n)) nvals) (map np_log error))))"

section \<open>The grid and the loop, for every rounding\<close>

lemma length_linspace_points: "length (linspace_points rnd a b num) = nat num"
  by (simp add: linspace_points_def Let_def)

lemma linspace_nonneg:
  "0 \<le> num \<Longrightarrow> linspace rnd a b num = Inr (linspace_points rnd a b num)"
  by (simp add: linspace_def)

lemma midpoint_loop_returns:
  assumes "\<forall>j\<in>set js. j + 1 < length x \<and> f (cell_mid rnd x j) = Inr (g (cell_mid rnd x j))"
  shows "midpoint_loop rnd f x dx js s =
         Inr \<lparr>integral = accumulate rnd (\<lambda>j. rnd (g (cell_mid rnd x j) * dx)) (integral s) js,
              evals = evals s @ map (cell_mid rnd x) js\<rparr>"
  using assms
proof (induction js arbitrary: s)
  case Nil
  show ?case by (simp add: accumulate_def)
next
  case (Cons j js)
  then show ?case
    by (simp add: getitem_def cell_mid_def Let_def accumulate_def)
qed

lemma midpoint_loop_raises:
  assumes "\<forall>j\<in>set pre. j + 1 < length x \<and> \<not> isl (f (cell_mid rnd x j))"
    and "k + 1 < length x" and "f (cell_mid rnd x k) = Inl e"
  shows "midpoint_loop rnd f x dx (pre @ k # post) s = Inl (IntegrandError e)"
  using assms
proof (induction pre arbitrary: s)
  case Nil
  then show ?case by (simp add: getitem_def cell_mid_def Let_def)
next
  case (Cons j js)
  from Cons.prems(1) obtain v where "f (cell_mid rnd x j) = Inr v" and "j + 1 < length x"
    by (cases "f (cell_mid rnd x j)") auto
  with Cons show ?case
    by (simp add: getitem_def cell_mid_def Let_def)
qed

lemma run_returns:
  assumes n: "1 \<le> n"
    and f: "\<forall>j<nat n. f (eval_point rnd a b n j) = Inr (g (eval_point rnd a b n j))"
  shows "integrate_midpoint_run rnd f a b n =
         Inr \<lparr>integral = accumulate rnd (\<lambda>j. rnd (g (eval_point rnd a b n j) * width rnd a b n))
                            0 [0..<nat n],
              evals = map (eval_point rnd a b n) [0..<nat n]\<rparr>"
proof -
  let ?x = "linspace_points rnd a b (n + 1)"
  have len: "length ?x = nat n + 1"
    using n by (simp add: length_linspace_points nat_add_distrib)
  have "\<forall>j\<in>set [0..<nat n]. j + 1 < length ?x
          \<and> f (cell_mid rnd ?x j) = Inr (g (cell_mid rnd ?x j))"
    using f len by (simp add: eval_point_def)
  from midpoint_loop_returns[OF this, of "width rnd a b n" "\<lparr>integral = 0, evals = []\<rparr>"]
  show ?thesis
    using n by (simp add: integrate_midpoint_run_def linspace_nonneg truediv_def range_py_def
        width_def eval_point_def)
qed

lemma run_raises:
  assumes n: "1 \<le> n"
    and k: "k < nat n" "f (eval_point rnd a b n k) = Inl e"
    and pre: "\<forall>i<k. \<not> isl (f (eval_point rnd a b n i))"
  shows "integrate_midpoint_run rnd f a b n = Inl (IntegrandError e)"
proof -
  let ?x = "linspace_points rnd a b (n + 1)"
  have len: "length ?x = nat n + 1"
    using n by (simp add: length_linspace_points nat_add_distrib)
  have "[0..<nat n] = [0..<k] @ [k..<nat n]"
    using k(1) by (metis upt_add_eq_append le0 le_add_diff_inverse less_imp_le)
  then have split: "[0..<nat n] = [0..<k] @ k # [Suc k..<nat n]"
    using k(1) by (simp add: upt_conv_Cons)
  have "midpoint_loop rnd f ?x (width rnd a b n) ([0..<k] @ k # [Suc k..<nat n])
          \<lparr>integral = 0, evals = []\<rparr> = Inl (IntegrandError e)"
  proof (rule midpoint_loop_raises)
    show "\<forall>j\<in>set [0..<k]. j + 1 < length ?x \<and> \<not> isl (f (cell_mid rnd ?x j))"
      using pre k(1) len by (simp add: eval_point_def)
    show "k + 1 < length ?x" using k(1) len by simp
    show "f (cell_mid rnd ?x k) = Inl e" using k(2) by (simp add: eval_point_def)
  qed
  then show ?thesis
    using n split by (simp add: integrate_midpoint_run_def linspace_nonneg truediv_def range_py_def
        width_def)
qed

lemma first_failure:
  fixes P :: "nat \<Rightarrow> bool"
  assumes "\<exists>j<m. P j"
  shows "\<exists>k<m. P k \<and> (\<forall>i<k. \<not> P i)"
proof -
  define k where "k = (LEAST j. P j)"
  from assms obtain j where j: "j < m" "P j" by blast
  have "P k" unfolding k_def using j(2) by (rule LeastI)
  moreover have "k \<le> j" unfolding k_def using j(2) by (rule Least_le)
  moreover have "\<forall>i<k. \<not> P i"
    unfolding k_def using not_less_Least by blast
  ultimately have "k < m \<and> P k \<and> (\<forall>i<k. \<not> P i)" using j(1) by simp
  then show ?thesis by (rule_tac x = k in exI)
qed

lemma integrate_returns:
  assumes "1 \<le> n"
    and "\<forall>j<nat n. f (eval_point rnd a b n j) = Inr (g (eval_point rnd a b n j))"
  shows "integrate_midpoint rnd f a b n =
         Inr (accumulate rnd (\<lambda>j. rnd (g (eval_point rnd a b n j) * width rnd a b n)) 0 [0..<nat n])"
  using run_returns[OF assms] by (simp add: integrate_midpoint_def)

lemma integrate_raises:
  assumes "1 \<le> n" and "\<exists>j<nat n. isl (f (eval_point rnd a b n j))"
  shows "\<exists>k<nat n. \<exists>e. f (eval_point rnd a b n k) = Inl e
            \<and> (\<forall>i<k. \<not> isl (f (eval_point rnd a b n i)))
            \<and> integrate_midpoint_run rnd f a b n = Inl (IntegrandError e)"
proof -
  from first_failure[of "nat n" "\<lambda>j. isl (f (eval_point rnd a b n j))", OF assms(2)]
  obtain k where k: "k < nat n" "isl (f (eval_point rnd a b n k))"
    and pre: "\<forall>i<k. \<not> isl (f (eval_point rnd a b n i))" by blast
  from k(2) obtain e where e: "f (eval_point rnd a b n k) = Inl e"
    by (cases "f (eval_point rnd a b n k)") simp_all
  from run_raises[OF assms(1) k(1) e pre] k(1) e pre show ?thesis by blast
qed

lemma integrate_Inr_all_return:
  assumes "1 \<le> n" and "integrate_midpoint rnd f a b n = Inr v"
  shows "\<forall>j<nat n. f (eval_point rnd a b n j) = Inr (projr (f (eval_point rnd a b n j)))"
proof (rule ccontr)
  assume "\<not> ?thesis"
  then obtain j where j: "j < nat n"
    and "f (eval_point rnd a b n j) \<noteq> Inr (projr (f (eval_point rnd a b n j)))" by blast
  then have "isl (f (eval_point rnd a b n j))"
    by (cases "f (eval_point rnd a b n j)") simp_all
  with j have "\<exists>j<nat n. isl (f (eval_point rnd a b n j))" by blast
  from integrate_raises[OF assms(1) this] assms(2) show False
    by (auto simp: integrate_midpoint_def)
qed

section \<open>Exact arithmetic: the code computes the specification's sum\<close>

lemma length_uniform_grid: "length (uniform_grid a b n) = nat n + 1"
  by (simp add: uniform_grid_def)

lemma nth_uniform_grid: "j \<le> nat n \<Longrightarrow> uniform_grid a b n ! j = left_endpoint a b n j"
  unfolding uniform_grid_def using nth_map_upt[of j "nat n + 1" 0 "left_endpoint a b n"] by simp

lemma linspace_scale_exact:
  "0 < d \<Longrightarrow> linspace_scale exact delta d i = real i * (delta / real_of_int d)"
  by (auto simp: linspace_scale_def exact_def Let_def)

lemma linspace_points_exact:
  assumes "1 \<le> n"
  shows "linspace_points exact a b (n + 1) = uniform_grid a b n"
proof -
  let ?y = "map (\<lambda>i. exact (linspace_scale exact (exact (b - a)) (n + 1 - 1) i + a)) [0..<nat (n + 1)]"
  have len: "nat (n + 1) = nat n + 1" using assms by simp
  have "?y[nat (n + 1) - 1 := b] = uniform_grid a b n"
  proof (rule nth_equalityI)
    show "length (?y[nat (n + 1) - 1 := b]) = length (uniform_grid a b n)"
      using len by (simp add: length_uniform_grid)
  next
    fix i assume "i < length (?y[nat (n + 1) - 1 := b])"
    then have i: "i < nat n + 1" using len by simp
    show "?y[nat (n + 1) - 1 := b] ! i = uniform_grid a b n ! i"
    proof (cases "i = nat n")
      case True
      have "real (nat n) = real_of_int n" using assms by simp
      then have "left_endpoint a b n (nat n) = b"
        using assms by (simp add: left_endpoint_def step_width_def)
      with True i len show ?thesis by (simp add: nth_uniform_grid del: upt_Suc)
    next
      case False
      with i len assms show ?thesis
        by (simp add: linspace_scale_exact left_endpoint_def step_width_def nth_list_update
            nth_uniform_grid exact_def del: upt_Suc)
    qed
  qed
  with assms show ?thesis
    by (simp add: linspace_points_def Let_def)
qed

lemma midpoint_avg:
  "1 \<le> n \<Longrightarrow> midpoint a b n j = (left_endpoint a b n j + left_endpoint a b n (j + 1)) / 2"
  by (simp add: left_endpoint_def midpoint_def field_simps)

lemma eval_point_exact:
  assumes "1 \<le> n" "j < nat n"
  shows "eval_point exact a b n j = midpoint a b n j"
  using assms
  by (simp add: eval_point_def cell_mid_def linspace_points_exact midpoint_avg nth_uniform_grid
      exact_def)

lemma width_exact: "width exact a b n = step_width a b n"
  by (simp add: width_def step_width_def exact_def)

lemma foldl_cong_set:
  "(\<And>acc j. j \<in> set js \<Longrightarrow> h acc j = h' acc j) \<Longrightarrow> foldl h s js = foldl h' s js"
  by (induction js arbitrary: s) auto

lemma foldl_add_sum:
  "foldl (\<lambda>acc j. acc + h j) s [0..<k] = s + (\<Sum>j<k. h j)"
  by (induction k) (simp_all add: algebra_simps)

lemma midpoint_sum_eq_sum:
  "midpoint_sum g a b n = (\<Sum>j<nat n. g (midpoint a b n j) * step_width a b n)"
  by (simp add: midpoint_sum_def foldl_add_sum)

lemma accumulate_exact:
  assumes "1 \<le> n"
  shows "accumulate exact (\<lambda>j. exact (g (eval_point exact a b n j) * width exact a b n)) 0 [0..<nat n]
         = midpoint_sum g a b n"
  unfolding accumulate_def midpoint_sum_def
  by (rule foldl_cong_set) (simp add: exact_def eval_point_exact[OF assms] width_exact)

lemma integrate_exact_returns:
  assumes "1 \<le> n" and "\<forall>j<nat n. f (midpoint a b n j) = Inr (g (midpoint a b n j))"
  shows "integrate_midpoint exact f a b n = Inr (midpoint_sum g a b n)"
proof -
  have "\<forall>j<nat n. f (eval_point exact a b n j) = Inr (g (eval_point exact a b n j))"
    using assms by (simp add: eval_point_exact)
  from integrate_returns[OF assms(1) this] show ?thesis
    by (simp only: accumulate_exact[OF assms(1)])
qed

section \<open>Evaluating \<open>binary64\<close>\<close>

text \<open>
  A number whose magnitude, scaled by \<open>2 ^ m\<close>, lies in \<open>[2 ^ 52, 2 ^ 53)\<close> is rounded to
  the nearest multiple of \<open>1 / 2 ^ m\<close>, ties to the even multiple.
\<close>

lemma binary64_zero: "binary64 0 = 0"
  by (simp add: binary64_def)

lemma binary64_eval:
  assumes "2 powi k \<le> \<bar>x\<bar>" and "\<bar>x\<bar> < 2 powi (k + 1)"
  shows "binary64 x = real_of_int (round_half_even (x / 2 powi (k - 52))) * 2 powi (k - 52)"
proof -
  have pos: "0 < \<bar>x\<bar>"
    using assms(1) by (smt (verit) zero_less_power_int)
  have p1: "2 powr real_of_int k = (2::real) powi k"
    by (rule powr_real_of_int') simp_all
  have "2 powr real_of_int (k + 1) = (2::real) powi (k + 1)"
    by (rule powr_real_of_int') simp_all
  then have p2: "2 powr (real_of_int k + 1) = (2::real) powi (k + 1)"
    by simp
  have "2 powr real_of_int k \<le> \<bar>x\<bar> \<and> \<bar>x\<bar> < 2 powr (real_of_int k + 1)"
    using assms by (simp only: p1 p2)
  then have "\<lfloor>log 2 \<bar>x\<bar>\<rfloor> = k"
    using pos floor_log_eq_powr_iff[of "\<bar>x\<bar>" 2 k] by simp
  with pos show ?thesis
    by (simp add: binary64_def Let_def)
qed

lemma binary64_scaled:
  assumes "2 ^ 52 \<le> \<bar>x\<bar> * 2 ^ m" and "\<bar>x\<bar> * 2 ^ m < 2 ^ 53"
  shows "binary64 x = real_of_int (round_half_even (x * 2 ^ m)) / 2 ^ m"
proof -
  define k :: int where "k = 52 - int m"
  have pm: "(2::real) powi (- int m) = 1 / 2 ^ m"
    by (simp add: power_int_minus field_simps)
  have "(2::real) powi k = 2 ^ 52 * 2 powi (- int m)"
    unfolding k_def by (simp add: power_int_diff power_int_minus field_simps)
  then have pk: "(2::real) powi k = 2 ^ 52 / 2 ^ m"
    by (simp add: pm)
  have "(2::real) powi (k + 1) = 2 ^ 53 * 2 powi (- int m)"
    unfolding k_def by (simp add: power_int_diff power_int_add power_int_minus field_simps)
  then have pk1: "(2::real) powi (k + 1) = 2 ^ 53 / 2 ^ m"
    by (simp add: pm)
  have lo: "2 powi k \<le> \<bar>x\<bar>"
    unfolding pk using assms(1) by (simp add: field_simps)
  have hi: "\<bar>x\<bar> < 2 powi (k + 1)"
    unfolding pk1 using assms(2) by (simp add: field_simps)
  have "k - 52 = - int m" by (simp add: k_def)
  with binary64_eval[OF lo hi] show ?thesis
    by (simp add: pm)
qed










lemma upt_0_4: "[0..<4] = [0, 1, 2, 3]"
  by (simp add: upt_rec)

lemma upt_0_3: "[0..<3] = [0, 1, 2]"
  by (simp add: upt_rec)

section \<open>The value returned\<close>

text \<open>
  Claim C1. For every integrand \<open>f\<close>, bounds \<open>a\<close>, \<open>b\<close> and \<open>n \<ge> 1\<close>, the function returns
  the sum over \<open>j = 0, \<dots>, n - 1\<close> of \<open>f(x\<^sub>j\<^sub>+\<^sub>\<onehalf>) \<Delta>x\<close>, where \<open>\<Delta>x = (b - a) / n\<close> and
  \<open>x\<^sub>j\<^sub>+\<^sub>\<onehalf> = a + j \<Delta>x + \<Delta>x / 2 = (x\<^sub>j + x\<^sub>j\<^sub>+\<^sub>1) / 2\<close>, accumulated in ascending order of \<open>j\<close>
  from zero. For every rounding and an integrand that returns the value \<open>g x\<close> at each
  evaluation point, the result is the accumulation from zero over \<open>[0..<n]\<close> of the rounded
  products of \<open>g\<close> at the evaluation point \<open>j\<close> and the width. In exact arithmetic the
  evaluation points are the midpoints, the width is \<open>\<Delta>x\<close>, and the result is the sum (the
  \<open>foldl\<close> over \<open>[0..<n]\<close>).
\<close>

theorem integrate_midpoint_midpoint_sum:
  assumes "1 \<le> n"
    and "\<forall>j<nat n. f (eval_point rnd a b n j) = Inr (g (eval_point rnd a b n j))"
  shows "integrate_midpoint rnd f a b n =
           Inr (accumulate rnd (\<lambda>j. rnd (g (eval_point rnd a b n j) * width rnd a b n)) 0
                  [0..<nat n])
         \<and> (rnd = exact \<longrightarrow>
              integrate_midpoint rnd f a b n =
                Inr (foldl (\<lambda>acc j. acc + g (midpoint a b n j) * step_width a b n) 0 [0..<nat n])
              \<and> (\<forall>j<nat n. eval_point rnd a b n j = midpoint a b n j)
              \<and> width rnd a b n = step_width a b n)
         \<and> foldl (\<lambda>acc j. acc + g (midpoint a b n j) * step_width a b n) 0 [0..<nat n] =
           (\<Sum>j<nat n. g (midpoint a b n j) * step_width a b n)
         \<and> step_width a b n = (b - a) / real_of_int n
         \<and> (\<forall>j. midpoint a b n j = a + real j * step_width a b n + step_width a b n / 2
                \<and> midpoint a b n j = (left_endpoint a b n j + left_endpoint a b n (j + 1)) / 2)"
proof (intro conjI impI)
  show "integrate_midpoint rnd f a b n =
          Inr (accumulate rnd (\<lambda>j. rnd (g (eval_point rnd a b n j) * width rnd a b n)) 0
                 [0..<nat n])"
    by (rule integrate_returns[OF assms])
next
  assume e: "rnd = exact"
  have "\<forall>j<nat n. f (midpoint a b n j) = Inr (g (midpoint a b n j))"
    using assms(2) by (simp add: e eval_point_exact[OF assms(1)])
  from integrate_exact_returns[OF assms(1) this]
  show "integrate_midpoint rnd f a b n =
          Inr (foldl (\<lambda>acc j. acc + g (midpoint a b n j) * step_width a b n) 0 [0..<nat n])"
    by (simp add: e midpoint_sum_def)
next
  assume e: "rnd = exact"
  show "\<forall>j<nat n. eval_point rnd a b n j = midpoint a b n j"
    by (simp add: e eval_point_exact[OF assms(1)])
next
  assume e: "rnd = exact"
  show "width rnd a b n = step_width a b n"
    by (simp add: e width_exact)
next
  show "foldl (\<lambda>acc j. acc + g (midpoint a b n j) * step_width a b n) 0 [0..<nat n] =
          (\<Sum>j<nat n. g (midpoint a b n j) * step_width a b n)"
    using midpoint_sum_eq_sum[of g a b n] by (simp add: midpoint_sum_def)
next
  show "step_width a b n = (b - a) / real_of_int n"
    by (simp add: step_width_def)
next
  show "\<forall>j. midpoint a b n j = a + real j * step_width a b n + step_width a b n / 2
            \<and> midpoint a b n j = (left_endpoint a b n j + left_endpoint a b n (j + 1)) / 2"
    using midpoint_avg[OF assms(1)] by (simp add: midpoint_def left_endpoint_def)
qed

text \<open>
  The identity on \<open>[0, 1]\<close> with two intervals: \<open>(1/4) (1/2) + (3/4) (1/2) = 1/2\<close>.
\<close>

theorem integrate_midpoint_midpoint_sum_witness:
  "(1::int) \<le> 2
   \<and> integrate_midpoint exact (pure_integrand (\<lambda>x. x) :: real \<Rightarrow> unit + real) 0 1 2 = Inr (1 / 2)"
proof -
  let ?f = "pure_integrand (\<lambda>x. x) :: real \<Rightarrow> unit + real"
  have p1: "(1::int) \<le> 2" by simp
  have p2: "\<forall>j<nat 2. ?f (eval_point exact 0 1 2 j) = Inr (eval_point exact 0 1 2 j)"
    by (simp add: pure_integrand_def)
  have "exact = exact \<longrightarrow>
          integrate_midpoint exact ?f 0 1 2 =
            Inr (foldl (\<lambda>acc j. acc + midpoint 0 1 2 j * step_width 0 1 2) 0 [0..<nat 2])
          \<and> (\<forall>j<nat 2. eval_point exact 0 1 2 j = midpoint 0 1 2 j)
          \<and> width exact 0 1 2 = step_width 0 1 2"
    using integrate_midpoint_midpoint_sum[where g = "\<lambda>x. x", OF p1 p2] by (rule conjunct2[THEN conjunct1])
  then have "integrate_midpoint exact ?f 0 1 2 =
               Inr (foldl (\<lambda>acc j. acc + midpoint 0 1 2 j * step_width 0 1 2) 0 [0..<nat 2])"
    by blast
  then show ?thesis
    by (simp add: midpoint_def left_endpoint_def step_width_def eval_nat_numeral)
qed

section \<open>Invalid counts and failing integrands\<close>

text \<open>
  Claim C3, as the code has it. The function checks nothing itself. For \<open>n \<le> -2\<close> the
  call \<open>np.linspace(a, b, num=n+1)\<close> raises \<open>ValueError\<close>; for \<open>n = -1\<close> the grid and
  the range are empty and the function returns \<open>0\<close>; for \<open>n = 0\<close> the division
  \<open>(b-a)/n\<close> of Python numbers raises \<open>ZeroDivisionError\<close>. This holds for every rounding
  and every integrand, which is never called.
\<close>

theorem integrate_midpoint_nonpositive_count:
  assumes "n \<le> 0"
  shows "integrate_midpoint rnd f a b n =
           (if n = 0 then Inl ZeroDivisionError
            else if n = - 1 then Inr 0
            else Inl ValueError)"
  using assms
  by (auto simp: integrate_midpoint_def integrate_midpoint_run_def linspace_def truediv_def
      range_py_def Let_def)

text \<open>
  Claim C3 fails at \<open>n = -1\<close>, where a value is returned, and at \<open>n = 0\<close>, where the error
  is a \<open>ZeroDivisionError\<close>.
\<close>

theorem integrate_midpoint_minus_one_returns:
  "integrate_midpoint binary64 (pure_integrand (\<lambda>x. x) :: real \<Rightarrow> unit + real) 0 1 (- 1) = Inr 0
   \<and> integrate_midpoint binary64 (pure_integrand (\<lambda>x. x) :: real \<Rightarrow> unit + real) 0 1 0
       = Inl ZeroDivisionError"
  by (simp add: integrate_midpoint_def integrate_midpoint_run_def linspace_def truediv_def
      range_py_def Let_def)

text \<open>
  At \<open>n = -2\<close> the error is the \<open>ValueError\<close> of \<open>np.linspace\<close>.
\<close>

theorem integrate_midpoint_nonpositive_count_witness:
  "(- 2::int) \<le> 0
   \<and> integrate_midpoint binary64 (pure_integrand (\<lambda>x. x) :: real \<Rightarrow> unit + real) 0 1 (- 2)
       = Inl ValueError"
  using integrate_midpoint_nonpositive_count[of "- 2" binary64 "pure_integrand (\<lambda>x. x) :: real \<Rightarrow> unit + real" 0 1]
  by simp

text \<open>
  Claim C9. For every \<open>a\<close>, \<open>b\<close>, \<open>n \<ge> 1\<close> and every rounding: if the integrand raises at
  one of the points the loop evaluates it at, the call ends with the exception \<open>e\<close> of the
  first such point \<open>k\<close>, unchanged, after the evaluations before \<open>k\<close> have returned; the
  result is an exception, so no partial sum is returned.
\<close>

theorem integrate_midpoint_propagates_failure:
  assumes "1 \<le> n" and "\<exists>j<nat n. isl (f (eval_point rnd a b n j))"
  shows "\<exists>k<nat n. \<exists>e. f (eval_point rnd a b n k) = Inl e
            \<and> (\<forall>i<k. \<not> isl (f (eval_point rnd a b n i)))
            \<and> integrate_midpoint rnd f a b n = Inl (IntegrandError e)"
  using integrate_raises[OF assms] by (auto simp: integrate_midpoint_def)

text \<open>
  An integrand that raises for arguments above \<open>1/2\<close>, on \<open>[0, 1]\<close> with two intervals:
  the second midpoint \<open>3/4\<close> raises.
\<close>

theorem integrate_midpoint_propagates_failure_witness:
  "(1::int) \<le> 2
   \<and> (\<exists>j<nat 2. isl ((\<lambda>x. if 1 / 2 < x then Inl ''domain'' else Inr x) (eval_point exact 0 1 2 j)))
   \<and> integrate_midpoint exact (\<lambda>x. if 1 / 2 < x then Inl ''domain'' else Inr x) 0 1 2
       = Inl (IntegrandError ''domain'')"
proof -
  have ep: "eval_point exact 0 1 2 j = midpoint 0 1 2 j" if "j < nat 2" for j
    using that by (intro eval_point_exact) simp_all
  have "eval_point exact 0 1 2 1 = 3 / 4"
    using ep[of 1] by (simp add: midpoint_def left_endpoint_def step_width_def)
  then have ex: "\<exists>j<nat 2. isl ((\<lambda>x. if 1 / 2 < x then Inl ''domain'' else Inr x)
                    (eval_point exact 0 1 2 j))"
    by (intro exI[of _ 1]) simp
  from integrate_midpoint_propagates_failure[of 2 "\<lambda>x. if 1 / 2 < x then Inl ''domain'' else Inr x" exact 0 1, OF _ ex]
  have "integrate_midpoint exact (\<lambda>x. if 1 / 2 < x then Inl ''domain'' else Inr x) 0 1 2
       = Inl (IntegrandError ''domain'')"
    by (auto split: if_splits)
  with ex show ?thesis by simp
qed

section \<open>One interval, and an interval of width zero\<close>




lemma accumulate_zero:
  "rnd 0 = 0 \<Longrightarrow> accumulate rnd (\<lambda>j. 0) 0 js = 0"
  by (induction js) (simp_all add: accumulate_def)

text \<open>
  Claim C7, amended. For every \<open>a\<close>, every \<open>n \<ge> 1\<close> and every rounding with \<open>rnd 0 = 0\<close>, the
  width \<open>dx\<close> of the call on the interval \<open>[a, a]\<close> is zero. If the integrand returns a
  (finite) value at every evaluation point, every product and every partial sum is zero and
  the call returns \<open>0\<close>. If the integrand raises at an evaluation point, the call raises
  the exception of the first such point and returns nothing.
\<close>

theorem integrate_midpoint_zero_width:
  assumes "1 \<le> n" and "rnd 0 = 0"
  shows "((\<forall>j<nat n. \<not> isl (f (eval_point rnd a a n j))) \<longrightarrow>
            integrate_midpoint rnd f a a n = Inr 0)
         \<and> ((\<exists>j<nat n. isl (f (eval_point rnd a a n j))) \<longrightarrow>
            (\<exists>k<nat n. \<exists>e. f (eval_point rnd a a n k) = Inl e
               \<and> (\<forall>i<k. \<not> isl (f (eval_point rnd a a n i)))
               \<and> integrate_midpoint rnd f a a n = Inl (IntegrandError e)))
         \<and> width rnd a a n = 0"
proof -
  have w: "width rnd a a n = 0"
    using assms(2) by (simp add: width_def)
  have returns: "(\<forall>j<nat n. \<not> isl (f (eval_point rnd a a n j))) \<longrightarrow>
                   integrate_midpoint rnd f a a n = Inr 0"
  proof
    assume ret: "\<forall>j<nat n. \<not> isl (f (eval_point rnd a a n j))"
    have "\<forall>j<nat n. f (eval_point rnd a a n j) = Inr (projr (f (eval_point rnd a a n j)))"
    proof (intro allI impI)
      fix j assume "j < nat n"
      with ret have "\<not> isl (f (eval_point rnd a a n j))" by blast
      then show "f (eval_point rnd a a n j) = Inr (projr (f (eval_point rnd a a n j)))"
        by (cases "f (eval_point rnd a a n j)") simp_all
    qed
    from integrate_returns[OF assms(1) this]
    show "integrate_midpoint rnd f a a n = Inr 0"
      using assms(2) by (simp add: w accumulate_zero)
  qed
  have raises: "(\<exists>j<nat n. isl (f (eval_point rnd a a n j))) \<longrightarrow>
                  (\<exists>k<nat n. \<exists>e. f (eval_point rnd a a n k) = Inl e
                     \<and> (\<forall>i<k. \<not> isl (f (eval_point rnd a a n i)))
                     \<and> integrate_midpoint rnd f a a n = Inl (IntegrandError e))"
  proof
    assume "\<exists>j<nat n. isl (f (eval_point rnd a a n j))"
    from integrate_raises[OF assms(1) this]
    show "\<exists>k<nat n. \<exists>e. f (eval_point rnd a a n k) = Inl e
            \<and> (\<forall>i<k. \<not> isl (f (eval_point rnd a a n i)))
            \<and> integrate_midpoint rnd f a a n = Inl (IntegrandError e)"
      by (auto simp: integrate_midpoint_def)
  qed
  from returns raises w show ?thesis by (intro conjI)
qed

text \<open>
  The square on \<open>[5, 5]\<close> with three intervals, in \<open>binary64\<close>.
\<close>

theorem integrate_midpoint_zero_width_witness:
  "(1::int) \<le> 3 \<and> binary64 0 = 0
   \<and> integrate_midpoint binary64 (pure_integrand (\<lambda>x. x * x) :: real \<Rightarrow> unit + real) 5 5 3 = Inr 0"
  using integrate_midpoint_zero_width[of 3 binary64 "pure_integrand (\<lambda>x. x * x) :: real \<Rightarrow> unit + real" 5]
  by (simp add: binary64_zero pure_integrand_def)

text \<open>
  Claim C7 fails for an integrand that raises: on \<open>[5, 5]\<close> with three intervals the call
  raises the integrand's exception and does not return \<open>0\<close>.
\<close>

theorem integrate_midpoint_zero_width_raises:
  "integrate_midpoint binary64 (\<lambda>x. Inl ''domain'' :: string + real) 5 5 3
     = Inl (IntegrandError ''domain'')
   \<and> integrate_midpoint binary64 (\<lambda>x. Inl ''domain'' :: string + real) 5 5 3 \<noteq> Inr 0"
  using run_raises[of 3 0 "\<lambda>x. Inl ''domain'' :: string + real" binary64 5 5 "''domain''"]
  by (simp add: integrate_midpoint_def)

section \<open>Reversed bounds\<close>

lemma midpoint_reverse:
  assumes "1 \<le> n" and "j < nat n"
  shows "midpoint b a n j = midpoint a b n (nat n - Suc j)"
proof -
  define d where "d = (b - a) / real_of_int n"
  have N: "real_of_int n * d = b - a"
    using assms(1) by (simp add: d_def)
  have rev: "(a - b) / real_of_int n = - d"
    by (simp add: d_def minus_divide_left)
  have idx: "real (nat n - Suc j) = real_of_int n - real j - 1"
    using assms by (simp add: of_nat_diff)
  have "(real_of_int n - real j - 1) * d = (b - a) - real j * d - d"
    using N by (simp add: left_diff_distrib)
  then have "a + (real_of_int n - real j - 1) * d + d / 2 = b + real j * (- d) + (- d) / 2"
    by simp
  then show ?thesis
    by (simp only: midpoint_def left_endpoint_def step_width_def rev idx d_def[symmetric])
qed

lemma step_width_reverse: "step_width b a n = - step_width a b n"
  by (simp add: step_width_def minus_divide_left)

lemma midpoint_sum_reverse:
  assumes "1 \<le> n"
  shows "midpoint_sum g b a n = - midpoint_sum g a b n"
proof -
  have "(\<Sum>j<nat n. g (midpoint b a n j)) = (\<Sum>j<nat n. g (midpoint a b n (nat n - Suc j)))"
    by (rule sum.cong) (simp_all only: lessThan_iff midpoint_reverse[OF assms, where a = a and b = b])
  also have "\<dots> = (\<Sum>j<nat n. g (midpoint a b n j))"
    by (rule sum.nat_diff_reindex)
  finally have eq: "(\<Sum>j<nat n. g (midpoint b a n j)) = (\<Sum>j<nat n. g (midpoint a b n j))" .
  have "midpoint_sum g b a n = (\<Sum>j<nat n. g (midpoint b a n j)) * step_width b a n"
    by (simp only: midpoint_sum_eq_sum sum_distrib_right)
  also have "\<dots> = - ((\<Sum>j<nat n. g (midpoint a b n j)) * step_width a b n)"
    by (simp only: eq step_width_reverse[of b a n] mult_minus_right)
  also have "\<dots> = - midpoint_sum g a b n"
    by (simp only: midpoint_sum_eq_sum sum_distrib_right)
  finally show ?thesis .
qed

text \<open>
  Claim C4, amended: in exact arithmetic, for every integrand \<open>f\<close>, bounds \<open>a\<close>, \<open>b\<close> and
  \<open>n \<ge> 1\<close>, if the call on \<open>(a, b)\<close> returns \<open>v\<close> then the call on \<open>(b, a)\<close> returns \<open>-v\<close>.
\<close>

theorem integrate_midpoint_reversed_exact:
  assumes "1 \<le> n" and "integrate_midpoint exact f a b n = Inr v"
  shows "integrate_midpoint exact f b a n = Inr (- v)"
proof -
  define g where "g = (\<lambda>x. projr (f x))"
  have "\<forall>j<nat n. f (eval_point exact a b n j) = Inr (g (eval_point exact a b n j))"
    unfolding g_def using assms by (rule integrate_Inr_all_return)
  then have fwd: "\<forall>j<nat n. f (midpoint a b n j) = Inr (g (midpoint a b n j))"
    using assms(1) by (simp add: eval_point_exact)
  have v: "v = midpoint_sum g a b n"
    using integrate_exact_returns[OF assms(1) fwd] assms(2) by simp
  have "\<forall>j<nat n. f (midpoint b a n j) = Inr (g (midpoint b a n j))"
  proof (intro allI impI)
    fix j assume j: "j < nat n"
    then have "nat n - Suc j < nat n" by simp
    with fwd have "f (midpoint a b n (nat n - Suc j)) = Inr (g (midpoint a b n (nat n - Suc j)))"
      by blast
    then show "f (midpoint b a n j) = Inr (g (midpoint b a n j))"
      by (simp only: midpoint_reverse[OF assms(1) j, where a = a and b = b])
  qed
  from integrate_exact_returns[OF assms(1) this]
  have "integrate_midpoint exact f b a n = Inr (midpoint_sum g b a n)" .
  then show ?thesis
    unfolding v by (simp only: midpoint_sum_reverse[OF assms(1), where g = g and a = a and b = b])
qed

text \<open>
  The square on \<open>[0, 2]\<close> with two intervals: \<open>5/2\<close> and \<open>-5/2\<close>.
\<close>

theorem integrate_midpoint_reversed_exact_witness:
  "(1::int) \<le> 2
   \<and> integrate_midpoint exact (pure_integrand (\<lambda>x. x * x) :: real \<Rightarrow> unit + real) 0 2 2 = Inr (5 / 2)
   \<and> integrate_midpoint exact (pure_integrand (\<lambda>x. x * x) :: real \<Rightarrow> unit + real) 2 0 2 = Inr (- (5 / 2))"
proof -
  have "\<forall>j<nat 2. (pure_integrand (\<lambda>x. x * x) (midpoint 0 2 2 j) :: unit + real) =
          Inr ((\<lambda>x. x * x) (midpoint 0 2 2 j))"
    by (simp add: pure_integrand_def)
  then have fwd: "integrate_midpoint exact (pure_integrand (\<lambda>x. x * x) :: real \<Rightarrow> unit + real) 0 2 2 = Inr (5 / 2)"
    using integrate_exact_returns[of 2 "pure_integrand (\<lambda>x. x * x) :: real \<Rightarrow> unit + real" 0 2 "\<lambda>x. x * x"]
    by (simp add: midpoint_sum_def midpoint_def left_endpoint_def step_width_def eval_nat_numeral)
  with integrate_midpoint_reversed_exact[of 2 "pure_integrand (\<lambda>x. x * x) :: real \<Rightarrow> unit + real" 0 2 "5 / 2"]
  show ?thesis by simp
qed

text \<open>
  The roundings of \<open>integrate_midpoint(lambda x: x, 0.0, 1.0, 3)\<close> and of the same call
  with the bounds exchanged, one lemma for each operation of the two runs.
\<close>

lemma rev_1: "binary64 (1) = 1"
  using binary64_scaled[of "1" 52] by (simp add: round_half_even_def)

lemma rev_2: "binary64 (1 / 3) = 6004799503160661 / 18014398509481984"
  using binary64_scaled[of "1 / 3" 54] by (simp add: round_half_even_def)

lemma rev_3: "binary64 (6004799503160661 / 18014398509481984) = 6004799503160661 / 18014398509481984"
  using binary64_scaled[of "6004799503160661 / 18014398509481984" 54] by (simp add: round_half_even_def)

lemma rev_4: "binary64 (6004799503160661 / 9007199254740992) = 6004799503160661 / 9007199254740992"
  using binary64_scaled[of "6004799503160661 / 9007199254740992" 53] by (simp add: round_half_even_def)

lemma rev_5: "binary64 (18014398509481983 / 18014398509481984) = 1"
  using binary64_scaled[of "18014398509481983 / 18014398509481984" 53] by (simp add: round_half_even_def)

lemma rev_6: "binary64 (6004799503160661 / 36028797018963968) = 6004799503160661 / 36028797018963968"
  using binary64_scaled[of "6004799503160661 / 36028797018963968" 55] by (simp add: round_half_even_def)

lemma rev_7: "binary64 (36057617073158521194928777956921 / 649037107316853453566312041152512) = 2001599834386887 / 36028797018963968"
  using binary64_scaled[of "36057617073158521194928777956921 / 649037107316853453566312041152512" 57] by (simp add: round_half_even_def)

lemma rev_8: "binary64 (2001599834386887 / 36028797018963968) = 2001599834386887 / 36028797018963968"
  using binary64_scaled[of "2001599834386887 / 36028797018963968" 57] by (simp add: round_half_even_def)

lemma rev_9: "binary64 (1 / 2) = 1 / 2"
  using binary64_scaled[of "1 / 2" 53] by (simp add: round_half_even_def)

lemma rev_10: "binary64 (2001599834386887 / 9007199254740992) = 2001599834386887 / 9007199254740992"
  using binary64_scaled[of "2001599834386887 / 9007199254740992" 55] by (simp add: round_half_even_def)

lemma rev_11: "binary64 (15011998757901653 / 9007199254740992) = 3752999689475413 / 2251799813685248"
  using binary64_scaled[of "15011998757901653 / 9007199254740992" 52] by (simp add: round_half_even_def)

lemma rev_12: "binary64 (3752999689475413 / 4503599627370496) = 3752999689475413 / 4503599627370496"
  using binary64_scaled[of "3752999689475413 / 4503599627370496" 53] by (simp add: round_half_even_def)

lemma rev_13: "binary64 (22536010670724074996230548327993 / 81129638414606681695789005144064) = 5003999585967217 / 18014398509481984"
  using binary64_scaled[of "22536010670724074996230548327993 / 81129638414606681695789005144064" 54] by (simp add: round_half_even_def)

lemma rev_14: "binary64 (9007199254740991 / 18014398509481984) = 9007199254740991 / 18014398509481984"
  using binary64_scaled[of "9007199254740991 / 18014398509481984" 54] by (simp add: round_half_even_def)

lemma rev_15: "binary64 (- 1) = - 1"
  using binary64_scaled[of "- 1" 52] by (simp add: round_half_even_def)

lemma rev_16: "binary64 (- (1 / 3)) = - (6004799503160661 / 18014398509481984)"
  using binary64_scaled[of "- (1 / 3)" 54] by (simp add: round_half_even_def)

lemma rev_17: "binary64 (- (6004799503160661 / 18014398509481984)) = - (6004799503160661 / 18014398509481984)"
  using binary64_scaled[of "- (6004799503160661 / 18014398509481984)" 54] by (simp add: round_half_even_def)

lemma rev_18: "binary64 (12009599006321323 / 18014398509481984) = 3002399751580331 / 4503599627370496"
  using binary64_scaled[of "12009599006321323 / 18014398509481984" 53] by (simp add: round_half_even_def)

lemma rev_19: "binary64 (- (6004799503160661 / 9007199254740992)) = - (6004799503160661 / 9007199254740992)"
  using binary64_scaled[of "- (6004799503160661 / 9007199254740992)" 53] by (simp add: round_half_even_def)

lemma rev_20: "binary64 (3002399751580331 / 9007199254740992) = 3002399751580331 / 9007199254740992"
  using binary64_scaled[of "3002399751580331 / 9007199254740992" 54] by (simp add: round_half_even_def)

lemma rev_21: "binary64 (- (18014398509481983 / 18014398509481984)) = - 1"
  using binary64_scaled[of "- (18014398509481983 / 18014398509481984)" 53] by (simp add: round_half_even_def)

lemma rev_22: "binary64 (7505999378950827 / 4503599627370496) = 7505999378950827 / 4503599627370496"
  using binary64_scaled[of "7505999378950827 / 4503599627370496" 52] by (simp add: round_half_even_def)

lemma rev_23: "binary64 (7505999378950827 / 9007199254740992) = 7505999378950827 / 9007199254740992"
  using binary64_scaled[of "7505999378950827 / 9007199254740992" 53] by (simp add: round_half_even_def)

lemma rev_24: "binary64 (- (45072021341448155997260599816647 / 162259276829213363391578010288128)) = - (2501999792983609 / 9007199254740992)"
  using binary64_scaled[of "- (45072021341448155997260599816647 / 162259276829213363391578010288128)" 54] by (simp add: round_half_even_def)

lemma rev_25: "binary64 (- (2501999792983609 / 9007199254740992)) = - (2501999792983609 / 9007199254740992)"
  using binary64_scaled[of "- (2501999792983609 / 9007199254740992)" 54] by (simp add: round_half_even_def)

lemma rev_26: "binary64 (9007199254740993 / 9007199254740992) = 1"
  using binary64_scaled[of "9007199254740993 / 9007199254740992" 52] by (simp add: round_half_even_def)

lemma rev_27: "binary64 (- (6004799503160661 / 36028797018963968)) = - (6004799503160661 / 36028797018963968)"
  using binary64_scaled[of "- (6004799503160661 / 36028797018963968)" 55] by (simp add: round_half_even_def)

lemma rev_28: "binary64 (- (16012798675095097 / 36028797018963968)) = - (2001599834386887 / 4503599627370496)"
  using binary64_scaled[of "- (16012798675095097 / 36028797018963968)" 54] by (simp add: round_half_even_def)

lemma rev_29: "binary64 (3002399751580331 / 18014398509481984) = 3002399751580331 / 18014398509481984"
  using binary64_scaled[of "3002399751580331 / 18014398509481984" 55] by (simp add: round_half_even_def)

lemma rev_30: "binary64 (- (18028808536579263599864140558791 / 324518553658426726783156020576256)) = - (8006399337547549 / 144115188075855872)"
  using binary64_scaled[of "- (18028808536579263599864140558791 / 324518553658426726783156020576256)" 57] by (simp add: round_half_even_def)

lemma rev_31: "binary64 (- (72057594037927933 / 144115188075855872)) = - (1 / 2)"
  using binary64_scaled[of "- (72057594037927933 / 144115188075855872)" 54] by (simp add: round_half_even_def)

lemmas rev_all = rev_1 rev_2 rev_3 rev_4 rev_5 rev_6 rev_7 rev_8 rev_9 rev_10 rev_11 rev_12 rev_13 rev_14 rev_15 rev_16 rev_17 rev_18 rev_19 rev_20 rev_21 rev_22 rev_23 rev_24 rev_25 rev_26 rev_27 rev_28 rev_29 rev_30 rev_31

lemma rev_fwd:
  "integrate_midpoint binary64 (pure_integrand (\<lambda>x. x) :: real \<Rightarrow> unit + real) 0 1 3
     = Inr (9007199254740991 / 18014398509481984)"
  by (simp add: integrate_midpoint_def integrate_midpoint_run_def linspace_def linspace_points_def
      linspace_scale_def truediv_def range_py_def getitem_def pure_integrand_def Let_def
      upt_0_4 upt_0_3 binary64_zero rev_all)

lemma rev_bwd:
  "integrate_midpoint binary64 (pure_integrand (\<lambda>x. x) :: real \<Rightarrow> unit + real) 1 0 3
     = Inr (- (1 / 2))"
  by (simp add: integrate_midpoint_def integrate_midpoint_run_def linspace_def linspace_points_def
      linspace_scale_def truediv_def range_py_def getitem_def pure_integrand_def Let_def
      upt_0_4 upt_0_3 binary64_zero rev_all)

text \<open>
  Claim C4 fails for floats: \<open>integrate_midpoint(lambda x: x, 0.0, 1.0, 3)\<close> is
  \<open>0.49999999999999994\<close>, the float \<open>9007199254740991 / 2 ^ 54\<close>, and the call with the bounds
  exchanged is \<open>-0.5\<close>.
\<close>

theorem integrate_midpoint_reversed_binary64:
  "integrate_midpoint binary64 (pure_integrand (\<lambda>x. x) :: real \<Rightarrow> unit + real) 0 1 3
     = Inr (9007199254740991 / 18014398509481984)
   \<and> integrate_midpoint binary64 (pure_integrand (\<lambda>x. x) :: real \<Rightarrow> unit + real) 1 0 3
     = Inr (- (1 / 2))
   \<and> (9007199254740991 / 18014398509481984 :: real) \<noteq> - (- (1 / 2))"
  by (simp add: rev_fwd rev_bwd)

section \<open>Integrands of degree at most one\<close>

lemma linear_sum:
  "(\<Sum>j<N. (m * (a + real j * d + d / 2) + k) * d) =
     m * d * (real N * a + d * (real N)\<^sup>2 / 2) + k * real N * d"
proof (induction N)
  case 0
  show ?case by simp
next
  case (Suc N)
  show ?case
    unfolding sum.lessThan_Suc Suc.IH
    by (simp add: algebra_simps power2_eq_square)
qed

lemma midpoint_sum_linear:
  assumes "1 \<le> n"
  shows "midpoint_sum (\<lambda>x. m * x + k) a b n = m * (b\<^sup>2 - a\<^sup>2) / 2 + k * (b - a)"
proof -
  define d where "d = (b - a) / real_of_int n"
  have N: "real (nat n) * d = b - a"
    using assms by (simp add: d_def)
  have "midpoint_sum (\<lambda>x. m * x + k) a b n =
          (\<Sum>j<nat n. (m * (a + real j * d + d / 2) + k) * d)"
    by (simp only: midpoint_sum_eq_sum midpoint_def left_endpoint_def step_width_def d_def)
  also have "\<dots> = m * d * (real (nat n) * a + d * (real (nat n))\<^sup>2 / 2) + k * real (nat n) * d"
    by (rule linear_sum)
  also have "\<dots> = m * (real (nat n) * d) * a + m * (real (nat n) * d)\<^sup>2 / 2 + k * (real (nat n) * d)"
    by (simp add: algebra_simps power2_eq_square)
  also have "\<dots> = m * (b\<^sup>2 - a\<^sup>2) / 2 + k * (b - a)"
    unfolding N by (simp add: field_simps power2_eq_square)
  finally show ?thesis .
qed

text \<open>
  Claim C5. In exact arithmetic (the claim is up to floating-point rounding), for
  \<open>f(x) = m x + k\<close>, every \<open>a\<close>, \<open>b\<close> and \<open>n \<ge> 1\<close>, the function returns the integral
  \<open>m (b\<^sup>2 - a\<^sup>2) / 2 + k (b - a)\<close>; for a constant \<open>c\<close> it returns \<open>c (b - a)\<close>.
\<close>

theorem integrate_midpoint_linear_exact:
  assumes "1 \<le> n"
  shows "integrate_midpoint exact (pure_integrand (\<lambda>x. m * x + k)) a b n =
           Inr (m * (b\<^sup>2 - a\<^sup>2) / 2 + k * (b - a))
         \<and> integrate_midpoint exact (pure_integrand (\<lambda>x. c)) a b n = Inr (c * (b - a))"
proof -
  have lin: "integrate_midpoint exact (pure_integrand (\<lambda>x. m * x + k)) a b n =
           Inr (m * (b\<^sup>2 - a\<^sup>2) / 2 + k * (b - a))" for m k
    using integrate_exact_returns[OF assms, of "pure_integrand (\<lambda>x. m * x + k)" a b "\<lambda>x. m * x + k"]
    by (simp add: pure_integrand_def midpoint_sum_linear[OF assms])
  from lin[of 0 c] lin[of m k] show ?thesis by simp
qed

text \<open>
  On \<open>[1, 3]\<close> with four intervals, \<open>3 x + 1\<close> and the constant \<open>7\<close> both give \<open>14\<close>.
\<close>

theorem integrate_midpoint_linear_exact_witness:
  "(1::int) \<le> 4
   \<and> integrate_midpoint exact (pure_integrand (\<lambda>x. 3 * x + 1) :: real \<Rightarrow> unit + real) 1 3 4 = Inr 14
   \<and> integrate_midpoint exact (pure_integrand (\<lambda>x. 7) :: real \<Rightarrow> unit + real) 1 3 4 = Inr 14"
  using integrate_midpoint_linear_exact[of 4 3 1 1 3 7, where 'a = unit and 'b = unit] by simp

section \<open>Evaluation points\<close>

lemma midpoint_strictly_inside:
  assumes "1 \<le> n" and "j < nat n" and "a \<noteq> b"
  shows "min a b < midpoint a b n j \<and> midpoint a b n j < max a b"
proof -
  define t where "t = (real j + 1 / 2) / real_of_int n"
  have n: "0 < real_of_int n" using assms(1) by simp
  have "real j + 1 \<le> real_of_int n" using assms(1,2) by linarith
  then have t: "0 < t" "t < 1"
    using n by (simp_all add: t_def)
  have mid: "midpoint a b n j = a + t * (b - a)"
    using n by (simp add: midpoint_def left_endpoint_def step_width_def t_def field_simps)
  show ?thesis
  proof (cases "a < b")
    case True
    have "0 < t * (b - a)" using t True by simp
    moreover have "t * (b - a) < b - a" using t True by simp
    ultimately show ?thesis unfolding mid using True by linarith
  next
    case False
    with assms(3) have ba: "b < a" by simp
    have "t * (b - a) < 0" using t ba by (simp add: mult_pos_neg)
    moreover have "b - a < t * (b - a)" using t ba by simp
    ultimately show ?thesis unfolding mid using ba by linarith
  qed
qed

text \<open>
  Claim C10, amended. For every \<open>n \<ge> 1\<close> and every rounding: the grid has \<open>n + 1\<close> points,
  every index \<open>j\<close> and \<open>j + 1\<close> of the loop is within it, no \<open>IndexError\<close> is raised, and an
  integrand that returns is evaluated exactly \<open>n\<close> times. In exact arithmetic and for
  \<open>a \<noteq> b\<close>, every evaluation point lies strictly between \<open>min a b\<close> and \<open>max a b\<close>.
\<close>

theorem integrate_midpoint_evaluations:
  fixes f :: "real \<Rightarrow> 'e + real"
  assumes "1 \<le> n"
  shows "(\<exists>x. linspace rnd a b (n + 1) = (Inr x :: 'e error + real list) \<and> length x = nat n + 1
              \<and> (\<forall>j\<in>set (range_py n). j < length x \<and> j + 1 < length x))
         \<and> integrate_midpoint_run rnd f a b n \<noteq> Inl IndexError
         \<and> ((\<forall>j<nat n. \<not> isl (f (eval_point rnd a b n j))) \<longrightarrow>
              (\<exists>s. integrate_midpoint_run rnd f a b n = Inr s \<and> length (evals s) = nat n))
         \<and> (a \<noteq> b \<and> (\<forall>j<nat n. \<not> isl (f (midpoint a b n j))) \<longrightarrow>
              (\<exists>s. integrate_midpoint_run exact f a b n = Inr s \<and> length (evals s) = nat n
                   \<and> (\<forall>p\<in>set (evals s). min a b < p \<and> p < max a b \<and> p \<noteq> a \<and> p \<noteq> b)))"
    (is "?grid \<and> ?noindex \<and> ?count \<and> ?inside")
proof (intro conjI)
  show ?grid
    using assms by (simp add: linspace_nonneg length_linspace_points range_py_def nat_add_distrib)
  have returns: "\<exists>s. integrate_midpoint_run r f a b n = Inr s \<and> length (evals s) = nat n
                     \<and> evals s = map (eval_point r a b n) [0..<nat n]"
    if all: "\<forall>j<nat n. \<not> isl (f (eval_point r a b n j))" for r
  proof -
    have "\<forall>j<nat n. f (eval_point r a b n j) = Inr (projr (f (eval_point r a b n j)))"
      using all by simp
    from run_returns[OF assms, of f r a b "\<lambda>x. projr (f x)", OF this]
    show ?thesis by simp
  qed
  then show ?count by blast
  show ?inside
  proof (intro impI, elim conjE)
    assume ab: "a \<noteq> b" and all: "\<forall>j<nat n. \<not> isl (f (midpoint a b n j))"
    then have "\<forall>j<nat n. \<not> isl (f (eval_point exact a b n j))"
      using assms by (simp add: eval_point_exact)
    from returns[OF this] obtain s where s: "integrate_midpoint_run exact f a b n = Inr s"
      "length (evals s) = nat n" "evals s = map (eval_point exact a b n) [0..<nat n]" by blast
    have "\<forall>p\<in>set (evals s). min a b < p \<and> p < max a b \<and> p \<noteq> a \<and> p \<noteq> b"
      unfolding s(3) using midpoint_strictly_inside[OF assms _ ab] assms
      by (fastforce simp: eval_point_exact)
    with s(1,2) show "\<exists>s. integrate_midpoint_run exact f a b n = Inr s \<and> length (evals s) = nat n
                   \<and> (\<forall>p\<in>set (evals s). min a b < p \<and> p < max a b \<and> p \<noteq> a \<and> p \<noteq> b)"
      by blast
  qed
  show ?noindex
  proof (cases "\<forall>j<nat n. \<not> isl (f (eval_point rnd a b n j))")
    case True
    from returns[OF this] show ?thesis by auto
  next
    case False
    then have "\<exists>j<nat n. isl (f (eval_point rnd a b n j))" by blast
    from integrate_raises[OF assms this] show ?thesis by auto
  qed
qed

text \<open>
  The identity on \<open>[0, 1]\<close> with two intervals is evaluated twice, inside \<open>(0, 1)\<close>.
\<close>

theorem integrate_midpoint_evaluations_witness:
  "(1::int) \<le> 2 \<and> (0::real) \<noteq> 1
   \<and> (\<exists>s. integrate_midpoint_run exact (pure_integrand (\<lambda>x. x) :: real \<Rightarrow> unit + real) 0 1 2 = Inr s
          \<and> length (evals s) = 2 \<and> (\<forall>p\<in>set (evals s). 0 < p \<and> p < 1))"
  using integrate_midpoint_evaluations[of 2 exact 0 1 "pure_integrand (\<lambda>x. x) :: real \<Rightarrow> unit + real"]
  by (auto simp: pure_integrand_def)

text \<open>
  The roundings of \<open>integrate_midpoint(lambda x: x, 1.0, 1.0000000000000002, 1)\<close>: the two
  bounds are adjacent floats, and their midpoint rounds to the lower one.
\<close>

lemma adj_1: "binary64 (1 / 4503599627370496) = 1 / 4503599627370496"
  using binary64_scaled[of "1 / 4503599627370496" 104] by (simp add: round_half_even_def)

lemma adj_2: "binary64 (1) = 1"
  using binary64_scaled[of "1" 52] by (simp add: round_half_even_def)

lemma adj_3: "binary64 (4503599627370497 / 4503599627370496) = 4503599627370497 / 4503599627370496"
  using binary64_scaled[of "4503599627370497 / 4503599627370496" 52] by (simp add: round_half_even_def)

lemma adj_4: "binary64 (9007199254740993 / 4503599627370496) = 2"
  using binary64_scaled[of "9007199254740993 / 4503599627370496" 51] by (simp add: round_half_even_def)

lemmas adj_all = adj_1 adj_2 adj_3 adj_4

text \<open>
  Claim C10 fails for floats: on \<open>a = 1.0\<close>, \<open>b = 1.0000000000000002 = 1 + 2\<^sup>-\<^sup>5\<^sup>2\<close> and
  \<open>n = 1\<close> the only evaluation point is \<open>a\<close> itself.
\<close>

theorem integrate_midpoint_evaluates_endpoint:
  "map_sum id evals
     (integrate_midpoint_run binary64 (pure_integrand (\<lambda>x. x) :: real \<Rightarrow> unit + real)
        1 (4503599627370497 / 4503599627370496) 1)
   = Inr [1]"
  by (simp add: integrate_midpoint_run_def linspace_def linspace_points_def
      linspace_scale_def truediv_def range_py_def getitem_def pure_integrand_def Let_def
      upt_rec binary64_zero adj_all)

section \<open>The sine over \<open>[0, \<pi>]\<close>\<close>

text \<open>
  Bounds for \<open>sin\<close>, \<open>cos\<close> and \<open>\<pi>\<close> from Taylor's theorem, and the closed form of the
  midpoint sum of the sine: \<open>I\<^sub>n sin (\<pi> / 2n) = \<pi> / n\<close>.
\<close>

lemma sin_partial3: "(\<Sum>m<3. sin_coeff m * x ^ m) = (x::real)"
  by (simp add: sin_coeff_def lessThan_nat_numeral fact_numeral)

lemma sin_partial5: "(\<Sum>m<5. sin_coeff m * x ^ m) = (x::real) - x ^ 3 / 6"
  by (simp add: sin_coeff_def lessThan_nat_numeral fact_numeral)

lemma sin_lower_cubic:
  assumes "0 \<le> (x::real)"
  shows "x - x ^ 3 / 6 \<le> sin x"
proof -
  have "\<bar>sin x - x\<bar> \<le> inverse (fact 3) * \<bar>x\<bar> ^ 3"
    using Maclaurin_sin_bound[of x 3] by (simp only: sin_partial3)
  moreover have "inverse (fact 3) * \<bar>x\<bar> ^ 3 = x ^ 3 / 6"
    using assms by (simp add: fact_numeral)
  ultimately show ?thesis by linarith
qed

lemma sin_upper_quintic:
  assumes "0 \<le> (x::real)"
  shows "sin x \<le> x - x ^ 3 / 6 + x ^ 5 / 120"
proof -
  have "\<bar>sin x - (x - x ^ 3 / 6)\<bar> \<le> inverse (fact 5) * \<bar>x\<bar> ^ 5"
    using Maclaurin_sin_bound[of x 5] by (simp only: sin_partial5)
  moreover have "inverse (fact 5) * \<bar>x\<bar> ^ 5 = x ^ 5 / 120"
    using assms by (simp add: fact_numeral)
  ultimately show ?thesis by linarith
qed

lemma cos_partial10:
  "(\<Sum>m<10. cos_coeff m * x ^ m) = 1 - (x::real) ^ 2 / 2 + x ^ 4 / 24 - x ^ 6 / 720 + x ^ 8 / 40320"
  by (simp add: cos_coeff_def lessThan_nat_numeral fact_numeral)

lemma cos_bound10:
  assumes "0 < (x::real)"
  shows "\<bar>cos x - (1 - x ^ 2 / 2 + x ^ 4 / 24 - x ^ 6 / 720 + x ^ 8 / 40320)\<bar> \<le> x ^ 10 / 3628800"
proof -
  from Maclaurin_cos_expansion2[of x 10] assms obtain t where
    "cos x = (\<Sum>m<10. cos_coeff m * x ^ m) + (cos (t + 1 / 2 * real 10 * pi) / fact 10) * x ^ 10"
    by auto
  then have eq: "cos x - (1 - x ^ 2 / 2 + x ^ 4 / 24 - x ^ 6 / 720 + x ^ 8 / 40320) =
                 cos (t + 1 / 2 * real 10 * pi) * (x ^ 10 / 3628800)"
    by (simp add: cos_partial10 fact_numeral)
  have "\<bar>cos (t + 1 / 2 * real 10 * pi) * (x ^ 10 / 3628800)\<bar> \<le> 1 * (x ^ 10 / 3628800)"
    unfolding abs_mult using assms by (intro mult_mono) simp_all
  then show ?thesis by (simp only: eq mult_1)
qed

lemma pi_half_upper: "pi / 2 < 1571 / 1000"
proof -
  define y :: real where "y = 1571 / 1000"
  define p where "p = 1 - y ^ 2 / 2 + y ^ 4 / 24 - y ^ 6 / 720 + y ^ 8 / 40320"
  define e where "e = y ^ 10 / 3628800"
  have "0 < y" by (simp add: y_def)
  then have "\<bar>cos y - p\<bar> \<le> e"
    unfolding p_def e_def by (rule cos_bound10)
  moreover have "p + e < 0"
    by (simp add: p_def e_def y_def power_divide)
  ultimately have "cos y < 0" by linarith
  then have "\<not> y \<le> pi / 2"
    using cos_ge_zero[of y] \<open>0 < y\<close> by auto
  then show ?thesis by (simp add: y_def)
qed

lemma pi_half_lower: "157 / 100 < pi / 2"
proof -
  define y :: real where "y = 157 / 100"
  define p where "p = 1 - y ^ 2 / 2 + y ^ 4 / 24 - y ^ 6 / 720 + y ^ 8 / 40320"
  define e where "e = y ^ 10 / 3628800"
  have "0 < y" by (simp add: y_def)
  then have "\<bar>cos y - p\<bar> \<le> e"
    unfolding p_def e_def by (rule cos_bound10)
  moreover have "0 < p - e"
    by (simp add: p_def e_def y_def power_divide)
  ultimately have pos: "0 < cos y" by linarith
  have "y \<le> pi"
    using pi_ge_two by (simp add: y_def)
  then have "cos (pi / 2) < cos y \<longleftrightarrow> y < pi / 2"
    using \<open>0 < y\<close> by (intro cos_mono_less_eq) simp_all
  with pos show ?thesis by (simp add: y_def)
qed

lemma sin_midpoints_telescope:
  fixes h :: real
  shows "(\<Sum>j<N. sin ((real j + 1 / 2) * h)) * (2 * sin (h / 2)) = 1 - cos (real N * h)"
proof (induction N)
  case 0
  show ?case by simp
next
  case (Suc N)
  have "sin ((real N + 1 / 2) * h) * sin (h / 2) =
        (cos ((real N + 1 / 2) * h - h / 2) - cos ((real N + 1 / 2) * h + h / 2)) / 2"
    by (rule sin_times_sin)
  moreover have "(real N + 1 / 2) * h - h / 2 = real N * h"
    by (simp add: algebra_simps)
  moreover have "(real N + 1 / 2) * h + h / 2 = real (Suc N) * h"
    by (simp add: algebra_simps)
  ultimately have step: "sin ((real N + 1 / 2) * h) * (2 * sin (h / 2)) =
        cos (real N * h) - cos (real (Suc N) * h)"
    by simp
  have "(\<Sum>j<Suc N. sin ((real j + 1 / 2) * h)) * (2 * sin (h / 2)) =
        (\<Sum>j<N. sin ((real j + 1 / 2) * h)) * (2 * sin (h / 2)) +
        sin ((real N + 1 / 2) * h) * (2 * sin (h / 2))"
    by (simp only: sum.lessThan_Suc distrib_right)
  then show ?case
    by (simp only: Suc.IH step)
qed

lemma midpoint_sum_sin:
  assumes "1 \<le> n"
  shows "midpoint_sum sin 0 pi n * sin (pi / (2 * real_of_int n)) = pi / real_of_int n"
proof -
  define h where "h = pi / real_of_int n"
  have Nh: "real (nat n) * h = pi"
    using assms by (simp add: h_def)
  have half: "h / 2 = pi / (2 * real_of_int n)"
    by (simp add: h_def)
  have mid: "midpoint 0 pi n j = (real j + 1 / 2) * h" for j
    by (simp add: midpoint_def left_endpoint_def step_width_def h_def algebra_simps)
  have "midpoint_sum sin 0 pi n = (\<Sum>j<nat n. sin ((real j + 1 / 2) * h)) * h"
    by (simp add: midpoint_sum_eq_sum mid sum_distrib_right) (simp add: step_width_def h_def)
  then have "midpoint_sum sin 0 pi n * (2 * sin (h / 2)) =
             ((\<Sum>j<nat n. sin ((real j + 1 / 2) * h)) * (2 * sin (h / 2))) * h"
    by (simp only: mult.assoc mult.commute mult.left_commute)
  also have "\<dots> = (1 - cos pi) * h"
    by (simp only: sin_midpoints_telescope Nh)
  finally have "2 * (midpoint_sum sin 0 pi n * sin (h / 2)) = 2 * h"
    by simp
  then have "midpoint_sum sin 0 pi n * sin (h / 2) = h"
    by simp
  then show ?thesis
    by (simp only: half) (simp only: h_def)
qed

lemma ratio_bounds:
  fixes r x :: real
  assumes rel: "r * sin x = 2 * x"
    and x: "157 / 100000 < x" "x < 1571 / 1000000"
  shows "2.0000008215 < r \<and> r < 2.0000008234"
proof -
  define s where "s = x * x"
  have xpos: "0 < x" using x(1) by simp
  have "(157 / 100000) * (157 / 100000) < x * x"
    using x(1) by (intro mult_strict_mono) simp_all
  then have s_lo: "24649 / 10 ^ 10 < s" by (simp add: s_def)
  have "x * x < (1571 / 1000000) * (1571 / 1000000)"
    using x(2) xpos by (intro mult_strict_mono) simp_all
  then have s_hi: "s < 2468041 / 10 ^ 12" by (simp add: s_def)
  have x3: "x ^ 3 = x * s" and x5: "x ^ 5 = x * (s * s)"
    by (simp_all add: s_def power3_eq_cube eval_nat_numeral)
  have ss: "s * s < (2468041 / 10 ^ 12) * (2468041 / 10 ^ 12)"
    using s_hi s_lo by (intro mult_strict_mono) simp_all
  have lo: "x * (1 - s / 6) \<le> sin x"
    using sin_lower_cubic[of x] xpos by (simp add: x3 algebra_simps)
  have hi: "sin x \<le> x * (1 - s / 6 + s * s / 120)"
    using sin_upper_quintic[of x] xpos by (simp add: x3 x5 algebra_simps)
  have "0 < 1 - s / 6" using s_hi by simp
  then have "0 < x * (1 - s / 6)" using xpos by (rule mult_pos_pos[rotated])
  with lo have sin_pos: "0 < sin x" by linarith
  have upper: "r < 2.0000008234"
  proof (rule ccontr)
    assume "\<not> r < 2.0000008234"
    then have "2.0000008234 * sin x \<le> r * sin x"
      using sin_pos by (intro mult_right_mono) simp_all
    moreover have "2.0000008234 * (x * (1 - s / 6)) \<le> 2.0000008234 * sin x"
      using lo by (intro mult_left_mono) simp_all
    moreover have "0 < 2.0000008234 * (1 - s / 6) - 2"
      using s_hi by simp
    then have "0 < x * (2.0000008234 * (1 - s / 6) - 2)"
      using xpos by (rule mult_pos_pos[rotated])
    then have "2 * x < 2.0000008234 * (x * (1 - s / 6))"
      by (simp add: algebra_simps)
    ultimately show False using rel by linarith
  qed
  have lower: "2.0000008215 < r"
  proof (rule ccontr)
    assume "\<not> 2.0000008215 < r"
    then have "r * sin x \<le> 2.0000008215 * sin x"
      using sin_pos by (intro mult_right_mono) simp_all
    moreover have "2.0000008215 * sin x \<le> 2.0000008215 * (x * (1 - s / 6 + s * s / 120))"
      using hi by (intro mult_left_mono) simp_all
    moreover have "0 < 2 - 2.0000008215 * (1 - s / 6 + s * s / 120)"
      using s_lo ss by simp
    then have "0 < x * (2 - 2.0000008215 * (1 - s / 6 + s * s / 120))"
      using xpos by (rule mult_pos_pos[rotated])
    then have "2.0000008215 * (x * (1 - s / 6 + s * s / 120)) < 2 * x"
      by (simp add: algebra_simps)
    ultimately show False using rel by linarith
  qed
  from lower upper show ?thesis ..
qed

lemma midpoint_sum_sin_value:
  "2.0000008215 < midpoint_sum sin 0 pi 1000 \<and> midpoint_sum sin 0 pi 1000 < 2.0000008234"
proof -
  have "midpoint_sum sin 0 pi 1000 * sin (pi / 2000) = 2 * (pi / 2000)"
    using midpoint_sum_sin[of 1000] by simp
  moreover have "157 / 100000 < pi / 2000" "pi / 2000 < 1571 / 1000000"
    using pi_half_lower pi_half_upper by simp_all
  ultimately show ?thesis
    by (rule ratio_bounds)
qed

subsection \<open>The rounding errors of the calls on the sine\<close>

text \<open>
  For \<open>1 \<le> n \<le> 1000\<close>, when every operation has a relative error of at most
  \<open>2\<^sup>-\<^sup>5\<^sup>3 < 1.2 \<sqdot> 10\<^sup>-\<^sup>1\<^sup>6\<close>: the width is within \<open>2 \<sqdot> 10\<^sup>-\<^sup>1\<^sup>5 / n\<close> of \<open>\<pi> / n\<close>, a grid point
  within \<open>3 \<sqdot> 10\<^sup>-\<^sup>1\<^sup>5\<close> of \<open>j \<pi> / n\<close>, an evaluation point within \<open>4 \<sqdot> 10\<^sup>-\<^sup>1\<^sup>5\<close> of the midpoint,
  a term within \<open>d = 2.3 \<sqdot> 10\<^sup>-\<^sup>1\<^sup>4 / n\<close> of the exact term, the sum of the first \<open>k\<close> terms
  within \<open>k (d + 3.6 \<sqdot> 10\<^sup>-\<^sup>1\<^sup>6)\<close> of the exact partial sum, and the result within \<open>10\<^sup>-\<^sup>1\<^sup>2\<close> of
  the exact midpoint sum.
\<close>

lemma rounding_error:
  fixes rnd :: "real \<Rightarrow> real" and B :: real
  assumes R: "\<forall>x. \<bar>rnd x - x\<bar> \<le> \<bar>x\<bar> / 2 ^ 53" and x: "\<bar>x\<bar> \<le> B"
  shows "\<bar>rnd x - x\<bar> \<le> B * 120 / 10 ^ 18"
proof -
  have B: "0 \<le> B" using x by linarith
  have "\<bar>rnd x - x\<bar> \<le> \<bar>x\<bar> / 2 ^ 53" using R by blast
  also have "\<dots> \<le> B / 2 ^ 53" using x by (simp add: divide_right_mono)
  also have "\<dots> = B * (1 / 2 ^ 53)" by simp
  also have "\<dots> \<le> B * (120 / 10 ^ 18)"
    using B by (intro mult_left_mono) simp_all
  finally show ?thesis by simp
qed

lemma pi_bounds: "3 < pi" "pi < 3142 / 1000"
  using pi_half_lower pi_half_upper by simp_all

lemma width_error:
  fixes rnd :: "real \<Rightarrow> real" and n :: int
  assumes R: "\<forall>x. \<bar>rnd x - x\<bar> \<le> \<bar>x\<bar> / 2 ^ 53" and b: "\<bar>b - pi\<bar> \<le> 1000 / 10 ^ 18"
    and n: "1 \<le> n"
  shows "\<bar>rnd (rnd b / real_of_int n) - pi / real_of_int n\<bar> \<le> 2000 / 10 ^ 18 / real_of_int n"
    and "rnd (rnd b / real_of_int n) \<noteq> 0"
proof -
  define eps :: real where "eps = 1 / 10 ^ 18"
  have eps: "0 < eps" "eps < 1 / 1000000" by (simp_all add: eps_def)
  define r where "r = real_of_int n"
  have r: "1 \<le> r" using n by (simp add: r_def)
  define w where "w = eps / r"
  define d where "d = rnd b"
  define h where "h = pi / r"
  define q where "q = d / r"
  have b': "\<bar>b - pi\<bar> \<le> 1000 * eps" using b by (simp add: eps_def)
  then have "\<bar>b\<bar> \<le> 4" using pi_bounds eps by linarith
  from rounding_error[OF R this] have "\<bar>d - b\<bar> \<le> 480 * eps"
    by (simp add: d_def eps_def)
  with b' have d: "\<bar>d - pi\<bar> \<le> 1480 * eps" by linarith
  have "q - h = (d - pi) / r" by (simp add: q_def h_def diff_divide_distrib)
  then have "\<bar>q - h\<bar> = \<bar>d - pi\<bar> / r" using r by simp
  also have "\<dots> \<le> 1480 * eps / r" using d r by (intro divide_right_mono) simp_all
  finally have qh: "\<bar>q - h\<bar> \<le> 1480 * w" by (simp add: w_def)
  from d have "\<bar>d\<bar> \<le> 4" using pi_bounds eps by linarith
  then have "\<bar>d\<bar> / r \<le> 4 / r" using r by (intro divide_right_mono) simp_all
  then have "\<bar>q\<bar> \<le> 4 / r" using r by (simp add: q_def)
  from rounding_error[OF R this] have "\<bar>rnd q - q\<bar> \<le> 480 * w"
    by (simp add: w_def eps_def)
  with qh have e: "\<bar>rnd q - h\<bar> \<le> 2000 * w" by linarith
  then show "\<bar>rnd (rnd b / real_of_int n) - pi / real_of_int n\<bar> \<le> 2000 / 10 ^ 18 / real_of_int n"
    by (simp add: q_def d_def h_def w_def eps_def r_def)
  have "2000 * eps / r < pi / r"
    using r pi_bounds eps by (intro divide_strict_right_mono) simp_all
  then have "2000 * w < h" by (simp add: w_def h_def)
  with e have "rnd q \<noteq> 0" by linarith
  then show "rnd (rnd b / real_of_int n) \<noteq> 0"
    by (simp add: q_def d_def r_def)
qed

lemma linspace_points_nth:
  assumes "1 \<le> n" and "j \<le> nat n"
  shows "linspace_points rnd a b (n + 1) ! j =
         (if j = nat n then b else rnd (linspace_scale rnd (rnd (b - a)) n j + a))"
proof -
  have len: "nat (n + 1) = nat n + 1" using assms(1) by simp
  show ?thesis
    using assms len
    by (simp add: linspace_points_def Let_def nth_list_update del: upt_Suc)
qed

lemma grid_error:
  fixes rnd :: "real \<Rightarrow> real" and n :: int
  assumes R: "\<forall>x. \<bar>rnd x - x\<bar> \<le> \<bar>x\<bar> / 2 ^ 53" and b: "\<bar>b - pi\<bar> \<le> 1000 / 10 ^ 18"
    and n: "1 \<le> n" and j: "j \<le> nat n"
  shows "\<bar>linspace_points rnd 0 b (n + 1) ! j - real j * (pi / real_of_int n)\<bar> \<le> 3000 / 10 ^ 18"
    and "0 \<le> real j * (pi / real_of_int n)" and "real j * (pi / real_of_int n) \<le> pi"
proof -
  define eps :: real where "eps = 1 / 10 ^ 18"
  have eps: "0 < eps" "eps < 1 / 1000000" by (simp_all add: eps_def)
  define r where "r = real_of_int n"
  have r: "1 \<le> r" using n by (simp add: r_def)
  define w where "w = eps / r"
  define st where "st = rnd (rnd b / r)"
  define p where "p = real j * (pi / r)"
  have st: "\<bar>st - pi / r\<bar> \<le> 2000 * w"
    using width_error(1)[OF R b n] by (simp add: st_def eps_def w_def r_def)
  have st0: "st \<noteq> 0"
    using width_error(2)[OF R b n] by (simp add: st_def r_def)
  have b': "\<bar>b - pi\<bar> \<le> 1000 * eps" using b by (simp add: eps_def)
  have jr: "0 \<le> real j" "real j \<le> r" using j n by (simp_all add: r_def)
  have "real j * (pi / r) \<le> r * (pi / r)"
    using jr r by (intro mult_right_mono) simp_all
  then have p: "0 \<le> p" "p \<le> pi" using jr r by (simp_all add: p_def)
  then show "0 \<le> real j * (pi / real_of_int n)" and "real j * (pi / real_of_int n) \<le> pi"
    by (simp_all add: p_def r_def)
  have nth: "linspace_points rnd 0 b (n + 1) ! j = (if j = nat n then b else rnd (rnd (real j * st)))"
    using linspace_points_nth[OF n j, of rnd 0 b] n st0
    by (simp add: linspace_scale_def st_def Let_def r_def)
  have "\<bar>linspace_points rnd 0 b (n + 1) ! j - p\<bar> \<le> 3000 * eps"
  proof (cases "j = nat n")
    case True
    then have "real j = r" using n by (simp add: r_def)
    then have "p = pi" using r by (simp add: p_def)
    with True nth b' eps show ?thesis by simp
  next
    case False
    define y where "y = real j * st"
    have "y - p = real j * (st - pi / r)"
      by (simp add: y_def p_def algebra_simps)
    then have "\<bar>y - p\<bar> = real j * \<bar>st - pi / r\<bar>"
      by (simp add: abs_mult)
    also have "\<dots> \<le> r * (2000 * w)"
      using jr st r by (intro mult_mono) simp_all
    also have "\<dots> = 2000 * eps" using r by (simp add: w_def)
    finally have yp: "\<bar>y - p\<bar> \<le> 2000 * eps" .
    then have "\<bar>y\<bar> \<le> 4" using p pi_bounds eps by linarith
    from rounding_error[OF R this] have y: "\<bar>rnd y - y\<bar> \<le> 480 * eps"
      by (simp add: eps_def)
    with yp have "\<bar>rnd y\<bar> \<le> 4" using p pi_bounds eps by linarith
    from rounding_error[OF R this] have "\<bar>rnd (rnd y) - rnd y\<bar> \<le> 480 * eps"
      by (simp add: eps_def)
    with y yp have "\<bar>rnd (rnd y) - p\<bar> \<le> 3000 * eps" using eps by linarith
    with False nth show ?thesis by (simp add: y_def)
  qed
  then show "\<bar>linspace_points rnd 0 b (n + 1) ! j - real j * (pi / real_of_int n)\<bar> \<le> 3000 / 10 ^ 18"
    by (simp add: eps_def p_def r_def)
qed

lemma eval_point_error:
  fixes rnd :: "real \<Rightarrow> real" and n :: int
  assumes R: "\<forall>x. \<bar>rnd x - x\<bar> \<le> \<bar>x\<bar> / 2 ^ 53" and b: "\<bar>b - pi\<bar> \<le> 1000 / 10 ^ 18"
    and n: "1 \<le> n" and j: "j < nat n"
  shows "\<bar>eval_point rnd 0 b n j - midpoint 0 pi n j\<bar> \<le> 4000 / 10 ^ 18"
    and "0 \<le> midpoint 0 pi n j" and "midpoint 0 pi n j \<le> pi"
proof -
  define eps :: real where "eps = 1 / 10 ^ 18"
  have eps: "0 < eps" "eps < 1 / 1000000" by (simp_all add: eps_def)
  define h where "h = pi / real_of_int n"
  define p where "p = real j * h"
  define q where "q = real (j + 1) * h"
  define u where "u = linspace_points rnd 0 b (n + 1) ! j"
  define v where "v = linspace_points rnd 0 b (n + 1) ! (j + 1)"
  have j0: "j \<le> nat n" and j1: "j + 1 \<le> nat n" using j by simp_all
  have "midpoint 0 pi n j = real j * h + h / 2"
    by (simp add: midpoint_def left_endpoint_def step_width_def h_def)
  moreover have "p / 2 + q / 2 = real j * h + h / 2"
    by (simp add: p_def q_def field_simps)
  ultimately have m: "midpoint 0 pi n j = p / 2 + q / 2" by simp
  have e: "eval_point rnd 0 b n j = rnd (rnd (u + v) / 2)"
    by (simp add: eval_point_def cell_mid_def u_def v_def)
  have p: "0 \<le> p" "p \<le> pi"
    using grid_error(2,3)[OF R b n j0] by (simp_all add: p_def h_def)
  have q: "0 \<le> q" "q \<le> pi"
    using grid_error(2,3)[OF R b n j1] by (simp_all add: q_def h_def)
  from p q m show "0 \<le> midpoint 0 pi n j" and "midpoint 0 pi n j \<le> pi"
    by simp_all
  have up: "\<bar>u - p\<bar> \<le> 3000 * eps"
    using grid_error(1)[OF R b n j0] by (simp add: u_def p_def h_def eps_def)
  have vq: "\<bar>v - q\<bar> \<le> 3000 * eps"
    using grid_error(1)[OF R b n j1] by (simp add: v_def q_def h_def eps_def)
  define w where "w = rnd (u + v)"
  define z where "z = rnd (w / 2)"
  from up vq have "\<bar>u + v\<bar> \<le> 8" using p q pi_bounds eps by linarith
  from rounding_error[OF R this] have "\<bar>w - (u + v)\<bar> \<le> 960 * eps"
    by (simp add: eps_def w_def)
  with up vq have w: "\<bar>w - (p + q)\<bar> \<le> 6960 * eps" by linarith
  then have "\<bar>w / 2\<bar> \<le> 4" using p q pi_bounds eps by linarith
  from rounding_error[OF R this] have "\<bar>z - w / 2\<bar> \<le> 480 * eps"
    by (simp add: eps_def z_def)
  with w have "\<bar>z - (p / 2 + q / 2)\<bar> \<le> 4000 * eps"
    using eps by linarith
  then show "\<bar>eval_point rnd 0 b n j - midpoint 0 pi n j\<bar> \<le> 4000 / 10 ^ 18"
    by (simp add: e m eps_def z_def w_def)
qed

lemma sin_lipschitz:
  fixes w z :: real
  shows "\<bar>sin w - sin z\<bar> \<le> \<bar>w - z\<bar>"
proof -
  have "\<bar>sin w - sin z\<bar> = 2 * (\<bar>sin ((w - z) / 2)\<bar> * \<bar>cos ((w + z) / 2)\<bar>)"
    by (simp add: sin_diff_sin abs_mult)
  also have "\<dots> \<le> 2 * (\<bar>(w - z) / 2\<bar> * 1)"
    by (intro mult_left_mono mult_mono abs_sin_x_le_abs_x) simp_all
  also have "\<dots> = \<bar>w - z\<bar>" by simp
  finally show ?thesis .
qed

lemma term_error:
  fixes rnd g :: "real \<Rightarrow> real" and n :: int
  assumes R: "\<forall>x. \<bar>rnd x - x\<bar> \<le> \<bar>x\<bar> / 2 ^ 53"
    and G: "\<forall>x. \<bar>g x - sin x\<bar> \<le> 1000 / 10 ^ 18"
    and b: "\<bar>b - pi\<bar> \<le> 1000 / 10 ^ 18"
    and n: "1 \<le> n" and j: "j < nat n"
  shows "\<bar>rnd (g (eval_point rnd 0 b n j) * width rnd 0 b n)
          - sin (midpoint 0 pi n j) * (pi / real_of_int n)\<bar> \<le> 23000 / 10 ^ 18 / real_of_int n"
proof -
  define eps :: real where "eps = 1 / 10 ^ 18"
  have eps: "0 < eps" "eps < 1 / 1000000" by (simp_all add: eps_def)
  define r where "r = real_of_int n"
  have r: "1 \<le> r" using n by (simp add: r_def)
  define ir where "ir = 1 / r"
  have ir: "0 < ir" using r by (simp add: ir_def)
  define w where "w = eps * ir"
  define e where "e = eval_point rnd 0 b n j"
  define m where "m = midpoint 0 pi n j"
  define v where "v = g e"
  define s where "s = sin m"
  define dx where "dx = width rnd 0 b n"
  define p where "p = pi * ir"
  have "pi * ir < (3142 / 1000) * ir"
    using pi_bounds ir by (intro mult_strict_right_mono) simp_all
  then have p: "p < (3142 / 1000) * ir" by (simp add: p_def)
  have p0: "0 < p" using ir by (simp add: p_def)
  have "eps * ir < (1 / 1000000) * ir"
    using eps ir by (intro mult_strict_right_mono) simp_all
  then have w: "w < ir / 1000000" by (simp add: w_def)
  have w0: "0 < w" using eps ir by (simp add: w_def)
  have s1: "\<bar>s\<bar> \<le> 1" by (simp add: s_def)
  have "\<bar>e - m\<bar> \<le> 4000 * eps"
    using eval_point_error(1)[OF R b n j] by (simp add: e_def m_def eps_def)
  moreover have "\<bar>sin e - sin m\<bar> \<le> \<bar>e - m\<bar>" by (rule sin_lipschitz)
  moreover have "\<bar>g e - sin e\<bar> \<le> 1000 * eps" using G by (simp add: eps_def)
  ultimately have vs: "\<bar>v - s\<bar> \<le> 5000 * eps" unfolding v_def s_def by linarith
  have dxp: "\<bar>dx - p\<bar> \<le> 2000 * w"
    using width_error(1)[OF R b n]
    by (simp add: dx_def width_def p_def w_def ir_def r_def eps_def)
  then have dx4: "\<bar>dx\<bar> \<le> 4 * ir" using p p0 w w0 by linarith
  have "\<bar>(v - s) * dx\<bar> = \<bar>v - s\<bar> * \<bar>dx\<bar>" by (rule abs_mult)
  also have "\<dots> \<le> (5000 * eps) * (4 * ir)"
    using vs dx4 eps ir by (intro mult_mono) simp_all
  finally have t1: "\<bar>(v - s) * dx\<bar> \<le> 20000 * w" by (simp add: w_def)
  have "\<bar>s * (dx - p)\<bar> = \<bar>s\<bar> * \<bar>dx - p\<bar>" by (rule abs_mult)
  also have "\<dots> \<le> 1 * (2000 * w)"
    using s1 dxp w0 by (intro mult_mono) simp_all
  finally have t2: "\<bar>s * (dx - p)\<bar> \<le> 2000 * w" by simp
  have "\<bar>s * p\<bar> = \<bar>s\<bar> * \<bar>p\<bar>" by (rule abs_mult)
  also have "\<dots> \<le> 1 * p"
    using s1 p0 by (intro mult_mono) simp_all
  finally have t3: "\<bar>s * p\<bar> \<le> p" by simp
  define x where "x = (v - s) * dx"
  define y where "y = s * (dx - p)"
  define c where "c = s * p"
  define t where "t = v * dx"
  have split: "t = c + x + y"
    by (simp add: t_def c_def x_def y_def algebra_simps)
  from t1 t2 t3 have xyc: "\<bar>x\<bar> \<le> 20000 * w" "\<bar>y\<bar> \<le> 2000 * w" "\<bar>c\<bar> \<le> p"
    by (simp_all add: x_def y_def c_def)
  with split have "\<bar>t\<bar> \<le> 5 * ir" using p w w0 by linarith
  from rounding_error[OF R this] have "\<bar>rnd t - t\<bar> \<le> 600 * w"
    by (simp add: eps_def w_def)
  with xyc split have "\<bar>rnd t - c\<bar> \<le> 23000 * w" using w0 by linarith
  then show ?thesis
    by (simp add: t_def c_def v_def s_def e_def m_def dx_def p_def eps_def w_def ir_def r_def)
qed

lemma accumulate_error:
  fixes rnd :: "real \<Rightarrow> real" and t c :: "nat \<Rightarrow> real"
  assumes R: "\<forall>x. \<bar>rnd x - x\<bar> \<le> \<bar>x\<bar> / 2 ^ 53"
    and t: "\<forall>j<N. \<bar>t j - c j\<bar> \<le> d"
    and c: "\<forall>j<N. 0 \<le> c j"
    and total: "(\<Sum>j<N. c j) \<le> 5 / 2"
    and d: "0 \<le> d" "d \<le> 1 / 4" "real N * (d + 360 / 10 ^ 18) \<le> 1 / 4"
  shows "k \<le> N \<Longrightarrow> \<bar>accumulate rnd t 0 [0..<k] - (\<Sum>j<k. c j)\<bar> \<le> real k * (d + 360 / 10 ^ 18)"
proof (induction k)
  case 0
  show ?case by (simp add: accumulate_def)
next
  case (Suc k)
  define eps :: real where "eps = 1 / 10 ^ 18"
  have eps: "0 < eps" by (simp add: eps_def)
  define A where "A = accumulate rnd t 0 [0..<k]"
  define S where "S = (\<Sum>j<k. c j)"
  define K where "K = real k * (d + 360 * eps)"
  have k: "k < N" using Suc.prems by simp
  have IH: "\<bar>A - S\<bar> \<le> K"
    using Suc.IH k by (simp add: A_def S_def K_def eps_def)
  have "real k * (d + 360 * eps) \<le> real N * (d + 360 * eps)"
    using k d(1) eps by (intro mult_right_mono) simp_all
  then have K: "K \<le> 1 / 4" using d(3) by (simp add: K_def eps_def)
  have acc: "accumulate rnd t 0 [0..<Suc k] = rnd (A + t k)"
    by (simp add: accumulate_def A_def)
  have sum: "(\<Sum>j<Suc k. c j) = S + c k" by (simp add: S_def)
  have S0: "0 \<le> S" unfolding S_def using c k by (intro sum_nonneg) simp
  have ck: "0 \<le> c k" using c k by simp
  have "(\<Sum>j<Suc k. c j) \<le> (\<Sum>j<N. c j)"
    using c k by (intro sum_mono2) auto
  with sum total have S1: "S + c k \<le> 5 / 2" by simp
  have tk: "\<bar>t k - c k\<bar> \<le> d" using t k by simp
  from IH K tk S0 ck S1 d(2) have "\<bar>A + t k\<bar> \<le> 3" by linarith
  from rounding_error[OF R this] have "\<bar>rnd (A + t k) - (A + t k)\<bar> \<le> 360 * eps"
    by (simp add: eps_def)
  with IH tk have "\<bar>rnd (A + t k) - (S + c k)\<bar> \<le> K + (d + 360 * eps)"
    by linarith
  moreover have "real (Suc k) * (d + 360 / 10 ^ 18) = K + (d + 360 * eps)"
    by (simp add: K_def eps_def algebra_simps)
  ultimately show ?case by (simp only: acc sum)
qed

lemma integrate_midpoint_sin_error:
  fixes rnd g :: "real \<Rightarrow> real" and n :: int
  assumes R: "\<forall>x. \<bar>rnd x - x\<bar> \<le> \<bar>x\<bar> / 2 ^ 53"
    and G: "\<forall>x. \<bar>g x - sin x\<bar> \<le> 1 / 10 ^ 15"
    and b: "\<bar>b - pi\<bar> \<le> 1 / 10 ^ 15"
    and n: "1 \<le> n" "n \<le> 1000"
    and total: "midpoint_sum sin 0 pi n \<le> 5 / 2"
  shows "\<exists>v. integrate_midpoint rnd (pure_integrand g) 0 b n = Inr v
           \<and> \<bar>v - midpoint_sum sin 0 pi n\<bar> \<le> 1 / 10 ^ 12"
proof -
  define r where "r = real_of_int n"
  have r: "1 \<le> r" "r \<le> 1000" using n by (simp_all add: r_def)
  have rN: "real (nat n) = r" using n by (simp add: r_def)
  define d :: real where "d = 23000 / 10 ^ 18 / r"
  define t where "t = (\<lambda>j. rnd (g (eval_point rnd 0 b n j) * width rnd 0 b n))"
  define c where "c = (\<lambda>j. sin (midpoint 0 pi n j) * (pi / real_of_int n))"
  define v where "v = accumulate rnd t 0 [0..<nat n]"
  define I where "I = midpoint_sum sin 0 pi n"
  have G': "\<forall>x. \<bar>g x - sin x\<bar> \<le> 1000 / 10 ^ 18" using G by simp
  have b': "\<bar>b - pi\<bar> \<le> 1000 / 10 ^ 18" using b by simp
  have "integrate_midpoint rnd (pure_integrand g) 0 b n =
        Inr (accumulate rnd (\<lambda>j. rnd (g (eval_point rnd 0 b n j) * width rnd 0 b n)) 0 [0..<nat n])"
    using n(1) by (rule integrate_returns) (simp add: pure_integrand_def)
  then have ret: "integrate_midpoint rnd (pure_integrand g) 0 b n = Inr v"
    by (simp add: v_def t_def)
  have sum: "(\<Sum>j<nat n. c j) = I"
    by (simp add: I_def c_def midpoint_sum_eq_sum step_width_def)
  have tc: "\<forall>j<nat n. \<bar>t j - c j\<bar> \<le> d"
    using term_error[OF R G' b' n(1)] by (simp add: t_def c_def d_def r_def)
  have c0: "\<forall>j<nat n. 0 \<le> c j"
  proof (intro allI impI)
    fix j :: nat assume j: "j < nat n"
    from eval_point_error(2,3)[OF R b' n(1) j] have "0 \<le> sin (midpoint 0 pi n j)"
      by (rule sin_ge_zero)
    then show "0 \<le> c j" using n(1) by (simp add: c_def)
  qed
  have tot: "(\<Sum>j<nat n. c j) \<le> 5 / 2" using sum total by (simp add: I_def)
  have d0: "0 \<le> d" using r by (simp add: d_def)
  have "23000 / 10 ^ 18 / r \<le> 23000 / 10 ^ 18 / 1"
    using r by (intro divide_left_mono) simp_all
  then have d1: "d \<le> 23000 / 10 ^ 18" by (simp add: d_def)
  then have d2: "d \<le> 1 / 4" by simp
  have "r * d = 23000 / 10 ^ 18" using r by (simp add: d_def)
  moreover have "r * (360 / 10 ^ 18) \<le> 1000 * (360 / 10 ^ 18)"
    using r by (intro mult_right_mono) simp_all
  ultimately have rd: "r * (d + 360 / 10 ^ 18) \<le> 383000 / 10 ^ 18"
    by (simp add: algebra_simps)
  then have d3: "real (nat n) * (d + 360 / 10 ^ 18) \<le> 1 / 4"
    unfolding rN by simp
  from accumulate_error[OF R tc c0 tot d0 d2 d3, of "nat n"]
  have "\<bar>v - I\<bar> \<le> r * (d + 360 / 10 ^ 18)"
    by (simp add: v_def sum rN)
  from this rd have "\<bar>v - I\<bar> \<le> 383000 / 10 ^ 18" by (rule order_trans)
  then have "\<bar>v - I\<bar> \<le> 1 / 10 ^ 12" by simp
  with ret show ?thesis unfolding I_def by blast
qed

lemma round_half_even_error: "\<bar>real_of_int (round_half_even y) - y\<bar> \<le> 1 / 2"
proof -
  have "real_of_int \<lfloor>y\<rfloor> \<le> y" "y < real_of_int \<lfloor>y\<rfloor> + 1" by linarith+
  then show ?thesis
    by (auto simp: round_half_even_def Let_def abs_le_iff)
qed

lemma binary64_relative_error: "\<bar>binary64 x - x\<bar> \<le> \<bar>x\<bar> / 2 ^ 53"
proof (cases "x = 0")
  case True
  then show ?thesis by (simp add: binary64_zero)
next
  case False
  define k where "k = \<lfloor>log 2 \<bar>x\<bar>\<rfloor>"
  define u :: real where "u = 2 powi (k - 52)"
  have pos: "0 < \<bar>x\<bar>" using False by simp
  have p1: "2 powr real_of_int k = (2::real) powi k"
    by (rule powr_real_of_int') simp_all
  have "2 powr real_of_int (k + 1) = (2::real) powi (k + 1)"
    by (rule powr_real_of_int') simp_all
  then have p2: "2 powr (real_of_int k + 1) = (2::real) powi (k + 1)"
    by simp
  have "2 powr real_of_int k \<le> \<bar>x\<bar> \<and> \<bar>x\<bar> < 2 powr (real_of_int k + 1)"
    using pos floor_log_eq_powr_iff[of "\<bar>x\<bar>" 2 k] by (simp add: k_def)
  then have lo: "2 powi k \<le> \<bar>x\<bar>" and hi: "\<bar>x\<bar> < 2 powi (k + 1)"
    by (simp_all only: p1 p2)
  have u: "0 < u" by (simp add: u_def)
  have uk: "u * 2 ^ 52 = 2 powi k"
    by (simp add: u_def power_int_diff)
  have b: "binary64 x = real_of_int (round_half_even (x / u)) * u"
    using binary64_eval[OF lo hi] by (simp add: u_def)
  have "binary64 x - x = (real_of_int (round_half_even (x / u)) - x / u) * u"
    using u by (simp add: b algebra_simps)
  then have "\<bar>binary64 x - x\<bar> = \<bar>real_of_int (round_half_even (x / u)) - x / u\<bar> * u"
    using u by (simp add: abs_mult)
  also have "\<dots> \<le> (1 / 2) * u"
    using u round_half_even_error[of "x / u"] by (intro mult_right_mono) simp_all
  also have "\<dots> = (u * 2 ^ 52) / 2 ^ 53" by simp
  also have "\<dots> \<le> \<bar>x\<bar> / 2 ^ 53"
    unfolding uk using lo by (intro divide_right_mono) simp_all
  finally show ?thesis .
qed

lemma binary64_sin_error: "\<forall>x. \<bar>binary64 (sin x) - sin x\<bar> \<le> 1 / 10 ^ 15"
proof
  fix x :: real
  have "\<bar>binary64 (sin x) - sin x\<bar> \<le> \<bar>sin x\<bar> / 2 ^ 53"
    by (rule binary64_relative_error)
  also have "\<dots> \<le> 1 / 2 ^ 53"
    by (intro divide_right_mono) simp_all
  also have "\<dots> \<le> 1 / 10 ^ 15" by simp
  finally show "\<bar>binary64 (sin x) - sin x\<bar> \<le> 1 / 10 ^ 15" .
qed

lemma binary64_pi_error: "\<bar>binary64 pi - pi\<bar> \<le> 1 / 10 ^ 15"
proof -
  have "\<bar>binary64 pi - pi\<bar> \<le> \<bar>pi\<bar> / 2 ^ 53"
    by (rule binary64_relative_error)
  also have "\<dots> \<le> 4 / 2 ^ 53"
    using pi_bounds by (intro divide_right_mono) simp_all
  also have "\<dots> \<le> 1 / 10 ^ 15" by simp
  finally show ?thesis .
qed

text \<open>
  Claim C8. \<open>integrate_midpoint(np.sin, 0, np.pi, 1000)\<close> returns a value within
  \<open>10\<^sup>-\<^sup>6\<close> of the integral \<open>2\<close> and within \<open>10\<^sup>-\<^sup>9\<close> of the printed
  \<open>2.0000008224672694\<close>: for every rounding of relative error at most \<open>2\<^sup>-\<^sup>5\<^sup>3\<close>, every
  sine \<open>g\<close> accurate to \<open>10\<^sup>-\<^sup>1\<^sup>5\<close> and every upper bound \<open>b\<close> within \<open>10\<^sup>-\<^sup>1\<^sup>5\<close> of \<open>\<pi>\<close>.
\<close>

theorem integrate_midpoint_sin_reference:
  fixes rnd g :: "real \<Rightarrow> real"
  assumes R: "\<forall>x. \<bar>rnd x - x\<bar> \<le> \<bar>x\<bar> / 2 ^ 53"
    and G: "\<forall>x. \<bar>g x - sin x\<bar> \<le> 1 / 10 ^ 15"
    and b: "\<bar>b - pi\<bar> \<le> 1 / 10 ^ 15"
  shows "\<exists>v. integrate_midpoint rnd (pure_integrand g :: real \<Rightarrow> 'e + real) 0 b 1000 = Inr v
           \<and> \<bar>v - 2\<bar> < 1 / 10 ^ 6
           \<and> \<bar>v - 2.0000008224672694\<bar> < 1 / 10 ^ 9"
proof -
  define I where "I = midpoint_sum sin 0 pi 1000"
  have I: "20000008215 / 10000000000 < I" "I < 20000008234 / 10000000000"
    using midpoint_sum_sin_value by (simp_all add: I_def)
  then have "midpoint_sum sin 0 pi 1000 \<le> 5 / 2" by (simp add: I_def)
  from integrate_midpoint_sin_error[OF R G b _ _ this]
  obtain v where ret: "integrate_midpoint rnd (pure_integrand g :: real \<Rightarrow> 'e + real) 0 b 1000 = Inr v"
    and "\<bar>v - I\<bar> \<le> 1 / 10 ^ 12"
    unfolding I_def by auto
  then have vI: "\<bar>v - I\<bar> \<le> 1 / 1000000000000" by simp
  have ref: "(2.0000008224672694::real) = 20000008224672694 / 10000000000000000" by simp
  from vI I have "\<bar>v - 2\<bar> < 1 / 1000000" by linarith
  moreover from vI I have "\<bar>v - 2.0000008224672694\<bar> < 1 / 1000000000"
    unfolding ref by linarith
  ultimately have "\<bar>v - 2\<bar> < 1 / 10 ^ 6 \<and> \<bar>v - 2.0000008224672694\<bar> < 1 / 10 ^ 9" by simp
  with ret show ?thesis by blast
qed

text \<open>
  The call in \<open>binary64\<close>, with the correctly rounded sine and the float nearest to \<open>\<pi>\<close>.
\<close>

theorem integrate_midpoint_sin_reference_witness:
  "\<exists>v. integrate_midpoint binary64 (pure_integrand (\<lambda>x. binary64 (sin x))) 0 (binary64 pi) 1000
         = Inr v
       \<and> \<bar>v - 2\<bar> < 1 / 10 ^ 6
       \<and> \<bar>v - 2.0000008224672694\<bar> < 1 / 10 ^ 9"
proof (rule integrate_midpoint_sin_reference)
  show "\<forall>x. \<bar>binary64 x - x\<bar> \<le> \<bar>x\<bar> / 2 ^ 53"
    by (intro allI binary64_relative_error)
  show "\<forall>x. \<bar>binary64 (sin x) - sin x\<bar> \<le> 1 / 10 ^ 15"
    by (rule binary64_sin_error)
  show "\<bar>binary64 pi - pi\<bar> \<le> 1 / 10 ^ 15"
    by (rule binary64_pi_error)
qed

section \<open>The convergence check\<close>

text \<open>
  With \<open>y\<^sub>i = c + k x\<^sub>i + e\<^sub>i\<close>, the least-squares slope differs from \<open>k\<close> by
  \<open>\<Sum> d\<^sub>i (e\<^sub>i - m) / D\<close>, where \<open>d\<^sub>i = N x\<^sub>i - \<Sum> x\<close> and \<open>D = N \<Sum> x\<^sup>2 - (\<Sum> x)\<^sup>2\<close>. The error of
  the midpoint rule on the sine is \<open>\<rho> \<pi>\<^sup>2 / (12 n\<^sup>2)\<close> with \<open>1 \<le> \<rho> \<le> 1.0042\<close> for \<open>n \<ge> 10\<close>; it is
  at least \<open>7.5 \<sqdot> 10\<^sup>-\<^sup>7\<close> for \<open>n \<le> 1000\<close>, so a rounding error of \<open>2 \<sqdot> 10\<^sup>-\<^sup>1\<^sup>2\<close> changes its
  logarithm by at most \<open>2 \<sqdot> 10\<^sup>-\<^sup>5\<close>.
\<close>

lemma abs_le_square_mean:
  fixes d t :: real
  assumes "0 < t"
  shows "\<bar>d\<bar> \<le> (d * d / t + t) / 2"
proof -
  have "0 \<le> (\<bar>d\<bar> - t) * (\<bar>d\<bar> - t)" by simp
  then have "2 * \<bar>d\<bar> * t \<le> d * d + t * t"
    by (simp add: algebra_simps)
  then have "2 * \<bar>d\<bar> \<le> (d * d + t * t) / t"
    using assms by (simp add: field_simps)
  also have "\<dots> = d * d / t + t"
    using assms by (simp add: field_simps)
  finally show ?thesis by simp
qed

lemma sum_lincomb:
  fixes f g :: "nat \<Rightarrow> real"
  shows "(\<Sum>i<N. a * f i - b * g i) = a * (\<Sum>i<N. f i) - b * (\<Sum>i<N. g i)"
  by (simp add: sum_subtractf sum_distrib_left)

lemma slope_deviations:
  fixes x y :: "nat \<Rightarrow> real" and N :: nat
  defines "X \<equiv> (\<Sum>i<N. x i)"
  defines "D \<equiv> real N * (\<Sum>i<N. x i * x i) - (\<Sum>i<N. x i) * (\<Sum>i<N. x i)"
  shows "(\<Sum>i<N. real N * x i - X) = 0"
    and "(\<Sum>i<N. (real N * x i - X) * x i) = D"
    and "(\<Sum>i<N. (real N * x i - X) * (real N * x i - X)) = real N * D"
    and "real N * (\<Sum>i<N. x i * y i) - X * (\<Sum>i<N. y i) = (\<Sum>i<N. (real N * x i - X) * y i)"
proof -
  show s0: "(\<Sum>i<N. real N * x i - X) = 0"
    by (simp add: sum_subtractf sum_distrib_left[symmetric] X_def)
  show s1: "(\<Sum>i<N. (real N * x i - X) * x i) = D"
    by (simp add: left_diff_distrib sum_subtractf sum_distrib_left[symmetric] mult.assoc
        X_def D_def)
  have "(\<Sum>i<N. (real N * x i - X) * (real N * x i - X)) =
        (\<Sum>i<N. real N * ((real N * x i - X) * x i) - X * (real N * x i - X))"
    by (rule sum.cong) (simp_all add: algebra_simps)
  also have "\<dots> =
        real N * (\<Sum>i<N. (real N * x i - X) * x i) - X * (\<Sum>i<N. real N * x i - X)"
    by (rule sum_lincomb)
  finally show "(\<Sum>i<N. (real N * x i - X) * (real N * x i - X)) = real N * D"
    by (simp add: s0 s1)
  show "real N * (\<Sum>i<N. x i * y i) - X * (\<Sum>i<N. y i) = (\<Sum>i<N. (real N * x i - X) * y i)"
    by (simp add: left_diff_distrib sum_subtractf sum_distrib_left mult.assoc)
qed

lemma slope_perturbation:
  fixes x y e :: "nat \<Rightarrow> real"
  assumes y: "\<And>i. i < N \<Longrightarrow> y i = c + k * x i + e i"
    and e: "\<And>i. i < N \<Longrightarrow> \<bar>e i - m\<bar> \<le> h"
    and D: "D = real N * (\<Sum>i<N. x i * x i) - (\<Sum>i<N. x i) * (\<Sum>i<N. x i)"
    and Dpos: "0 < D" and t: "0 < t"
  shows "\<bar>(real N * (\<Sum>i<N. x i * y i) - (\<Sum>i<N. x i) * (\<Sum>i<N. y i)) / D - k\<bar>
           \<le> h * real N * (1 / t + t / D) / 2"
proof -
  define X where "X = (\<Sum>i<N. x i)"
  define d where "d i = real N * x i - X" for i
  note dev = slope_deviations[of N x, folded X_def D, folded d_def]
  have hpos: "0 \<le> h"
  proof (cases "N = 0")
    case True
    with Dpos D show ?thesis by simp
  next
    case False
    then have "0 < N" by simp
    from e[OF this] show ?thesis by linarith
  qed
  have "(\<Sum>i<N. d i * y i) = (\<Sum>i<N. c * d i + k * (d i * x i) + d i * (e i - m) + m * d i)"
    by (rule sum.cong) (simp_all add: y algebra_simps)
  also have "\<dots> = c * (\<Sum>i<N. d i) + k * (\<Sum>i<N. d i * x i) + (\<Sum>i<N. d i * (e i - m))
                    + m * (\<Sum>i<N. d i)"
    by (simp add: sum.distrib sum_distrib_left)
  also have "\<dots> = k * D + (\<Sum>i<N. d i * (e i - m))"
    by (simp add: dev(1,2))
  finally have num: "real N * (\<Sum>i<N. x i * y i) - X * (\<Sum>i<N. y i)
                     = k * D + (\<Sum>i<N. d i * (e i - m))"
    by (simp only: dev(4))
  have "\<bar>\<Sum>i<N. d i * (e i - m)\<bar> \<le> (\<Sum>i<N. \<bar>d i * (e i - m)\<bar>)"
    by (rule sum_abs)
  also have "\<dots> \<le> (\<Sum>i<N. (d i * d i / t + t) / 2 * h)"
  proof (rule sum_mono)
    fix i assume "i \<in> {..<N}"
    then have "\<bar>e i - m\<bar> \<le> h" using e by simp
    moreover have "\<bar>d i\<bar> \<le> (d i * d i / t + t) / 2"
      using t by (rule abs_le_square_mean)
    ultimately show "\<bar>d i * (e i - m)\<bar> \<le> (d i * d i / t + t) / 2 * h"
      unfolding abs_mult by (intro mult_mono) simp_all
  qed
  also have "\<dots> = ((\<Sum>i<N. d i * d i) / t + real N * t) / 2 * h"
    by (simp add: sum_distrib_right[symmetric] sum_divide_distrib[symmetric] sum.distrib)
  also have "\<dots> = (real N * D / t + real N * t) / 2 * h"
    by (simp only: dev(3))
  finally have bound: "\<bar>\<Sum>i<N. d i * (e i - m)\<bar> \<le> (real N * D / t + real N * t) / 2 * h" .
  have "(real N * (\<Sum>i<N. x i * y i) - X * (\<Sum>i<N. y i)) / D - k
          = (\<Sum>i<N. d i * (e i - m)) / D"
    using Dpos by (simp add: num field_simps)
  then have "\<bar>(real N * (\<Sum>i<N. x i * y i) - X * (\<Sum>i<N. y i)) / D - k\<bar>
          = \<bar>\<Sum>i<N. d i * (e i - m)\<bar> / D"
    using Dpos by simp
  also have "\<dots> \<le> ((real N * D / t + real N * t) / 2 * h) / D"
    by (rule divide_right_mono) (use bound Dpos in simp_all)
  also have "\<dots> = h * real N * (1 / t + t / D) / 2"
    using Dpos t by (simp add: field_simps)
  finally show ?thesis by (simp only: X_def)
qed

lemma slope_denominator_lower:
  fixes x :: "nat \<Rightarrow> real"
  assumes "p < N" "q < N" "p \<noteq> q"
  shows "real N * (x p - x q) * (x p - x q) / 2
           \<le> real N * (\<Sum>i<N. x i * x i) - (\<Sum>i<N. x i) * (\<Sum>i<N. x i)"
proof -
  define X where "X = (\<Sum>i<N. x i)"
  define D where "D = real N * (\<Sum>i<N. x i * x i) - (\<Sum>i<N. x i) * (\<Sum>i<N. x i)"
  define d where "d i = real N * x i - X" for i
  note dev = slope_deviations[of N x, folded X_def D_def, folded d_def]
  have Npos: "0 < real N" using assms(1) by simp
  have "(\<Sum>i\<in>{p, q}. d i * d i) \<le> (\<Sum>i<N. d i * d i)"
    by (rule sum_mono2) (use assms in auto)
  then have "d p * d p + d q * d q \<le> real N * D"
    using assms(3) by (simp add: dev(3))
  moreover have "(d p - d q) * (d p - d q) \<le> 2 * (d p * d p + d q * d q)"
  proof -
    have "0 \<le> (d p + d q) * (d p + d q)" by simp
    then show ?thesis by (simp add: algebra_simps)
  qed
  moreover have "d p - d q = real N * (x p - x q)"
    by (simp add: d_def algebra_simps)
  ultimately have "real N * (x p - x q) * (real N * (x p - x q)) \<le> 2 * (real N * D)"
    by simp
  then have "real N * (real N * (x p - x q) * (x p - x q)) \<le> real N * (2 * D)"
    by (simp add: mult_ac)
  then have "real N * (x p - x q) * (x p - x q) \<le> 2 * D"
    using Npos by (simp only: mult_le_cancel_left_pos)
  then show ?thesis by (simp add: D_def)
qed

lemma midpoint_error_bounds:
  fixes v x :: real
  assumes rel: "v * sin x = 2 * x" and x: "0 < x" "x \<le> 1571 / 10000"
  shows "x * x / 3 \<le> v - 2 \<and> v - 2 \<le> (10042 / 10000) * (x * x / 3)"
proof -
  define s where "s = x * x"
  have spos: "0 < s" using x(1) by (simp add: s_def)
  have "x * x \<le> (1571 / 10000) * (1571 / 10000)"
    using x by (intro mult_mono) simp_all
  then have s_hi: "s \<le> 2468041 / 10 ^ 8" by (simp add: s_def)
  have x3: "x ^ 3 = x * s" and x5: "x ^ 5 = x * (s * s)"
    by (simp_all add: s_def power3_eq_cube eval_nat_numeral)
  have lo: "x * (1 - s / 6) \<le> sin x"
    using sin_lower_cubic[of x] x(1) by (simp add: x3 algebra_simps)
  have hi: "sin x \<le> x * (1 - s / 6 + s * s / 120)"
    using sin_upper_quintic[of x] x(1) by (simp add: x3 x5 algebra_simps)
  have "0 < 1 - s / 6" using s_hi by simp
  then have "0 < x * (1 - s / 6)" using x(1) by (rule mult_pos_pos[rotated])
  with lo have sin_pos: "0 < sin x" by linarith
  have E: "(v - 2) * sin x = 2 * x - 2 * sin x"
    using rel by (simp add: algebra_simps)
  have xs: "0 \<le> x * s" using x(1) spos by simp
  have xss: "0 \<le> x * s * s" using x(1) spos by simp
  have upper: "v - 2 \<le> (10042 / 10000) * (s / 3)"
  proof (rule ccontr)
    assume "\<not> v - 2 \<le> (10042 / 10000) * (s / 3)"
    then have "(10042 / 10000) * (s / 3) * sin x < (v - 2) * sin x"
      using sin_pos by simp
    moreover have "(10042 / 10000) * (s / 3) * (x * (1 - s / 6)) \<le> (10042 / 10000) * (s / 3) * sin x"
      using lo spos by (intro mult_left_mono) simp_all
    moreover have "0 \<le> (10042 / 10000) * (1 - s / 6) - 1"
      using s_hi by simp
    with xs have "0 \<le> (x * s) * ((10042 / 10000) * (1 - s / 6) - 1)"
      by (rule mult_nonneg_nonneg)
    then have "x * s / 3 \<le> (10042 / 10000) * (s / 3) * (x * (1 - s / 6))"
      by (simp add: algebra_simps)
    moreover have "2 * x - 2 * sin x \<le> x * s / 3"
      using lo by (simp add: algebra_simps)
    ultimately show False using E by linarith
  qed
  have lower: "s / 3 \<le> v - 2"
  proof (rule ccontr)
    assume "\<not> s / 3 \<le> v - 2"
    then have "(v - 2) * sin x < s / 3 * sin x"
      using sin_pos by simp
    moreover have "s / 3 * sin x \<le> s / 3 * (x * (1 - s / 6 + s * s / 120))"
      using hi spos by (intro mult_left_mono) simp_all
    moreover have "0 \<le> 7 / 180 - s / 360"
      using s_hi by simp
    with xss have "0 \<le> (x * s * s) * (7 / 180 - s / 360)"
      by (rule mult_nonneg_nonneg)
    then have "s / 3 * (x * (1 - s / 6 + s * s / 120)) \<le> x * s / 3 - x * (s * s) / 60"
      by (simp add: algebra_simps)
    moreover have "x * s / 3 - x * (s * s) / 60 \<le> 2 * x - 2 * sin x"
      using hi by (simp add: algebra_simps)
    ultimately show False using E by linarith
  qed
  from lower upper show ?thesis by (simp add: s_def)
qed

lemma midpoint_sum_sin_error:
  assumes n: "10 \<le> n"
  defines "v \<equiv> midpoint_sum sin 0 pi n"
  defines "q \<equiv> pi * pi / 12 / (real_of_int n * real_of_int n)"
  shows "0 < q" and "q \<le> v - 2" and "v - 2 \<le> (10042 / 10000) * q" and "v \<le> 5 / 2"
proof -
  define r where "r = real_of_int n"
  define x where "x = pi / (2 * r)"
  have r: "10 \<le> r" using n by (simp add: r_def)
  have xpos: "0 < x" using r by (simp add: x_def)
  have "pi / 2 \<le> 1571 / 1000" using pi_half_upper by simp
  then have "pi \<le> 3142 / 1000" by simp
  then have "pi / (2 * r) \<le> (3142 / 1000) / (2 * 10)"
    using r by (intro frac_le) simp_all
  then have x_hi: "x \<le> 1571 / 10000" by (simp add: x_def)
  have "v * sin (pi / (2 * real_of_int n)) = pi / real_of_int n"
    unfolding v_def using n by (intro midpoint_sum_sin) simp
  then have rel: "v * sin x = 2 * x"
    using r by (simp add: x_def r_def)
  have q_eq: "x * x / 3 = q"
    using r by (simp add: q_def x_def r_def field_simps)
  from midpoint_error_bounds[OF rel xpos x_hi]
  show "q \<le> v - 2" and hi: "v - 2 \<le> (10042 / 10000) * q"
    by (simp_all add: q_eq)
  show "0 < q" using xpos by (simp add: q_eq[symmetric])
  have "x * x \<le> (1571 / 10000) * (1571 / 10000)"
    using xpos x_hi by (intro mult_mono) simp_all
  then have "q \<le> 1 / 10" by (simp add: q_eq[symmetric])
  with hi show "v \<le> 5 / 2" by linarith
qed

lemma log_error_bounds:
  fixes rnd :: "real \<Rightarrow> real" and n :: int
  assumes R: "\<forall>x. \<bar>rnd x - x\<bar> \<le> \<bar>x\<bar> / 2 ^ 53"
    and n: "10 \<le> n" "n \<le> 1000"
    and v: "\<bar>v - midpoint_sum sin 0 pi n\<bar> \<le> 1 / 10 ^ 12"
  shows "1 / 10 ^ 7 \<le> \<bar>rnd (2 - v)\<bar>" and "\<bar>rnd (2 - v)\<bar> \<le> 1000"
    and "ln (pi * pi / 12) - 2 * ln (real_of_int n) - 2 / 10 ^ 5 \<le> ln \<bar>rnd (2 - v)\<bar>"
    and "ln \<bar>rnd (2 - v)\<bar> \<le> ln (pi * pi / 12) - 2 * ln (real_of_int n) + 43 / 10000"
proof -
  define r where "r = real_of_int n"
  define q where "q = pi * pi / 12 / (r * r)"
  define I where "I = midpoint_sum sin 0 pi n"
  define E where "E = \<bar>rnd (2 - v)\<bar>"
  define z where "z = rnd (2 - v)"
  have r: "10 \<le> r" "r \<le> 1000" using n by (simp_all add: r_def)
  have qpos: "0 < q" and lo: "q \<le> I - 2" and hi: "I - 2 \<le> (10042 / 10000) * q"
    using midpoint_sum_sin_error[OF n(1)] by (simp_all add: q_def I_def r_def)
  have pp: "9 \<le> pi * pi" "pi * pi \<le> 10"
  proof -
    have "3 * 3 \<le> pi * pi" using pi_bounds by (intro mult_mono) simp_all
    then show "9 \<le> pi * pi" by simp
    have "pi * pi \<le> (3142 / 1000) * (3142 / 1000)" using pi_bounds by (intro mult_mono) simp_all
    then show "pi * pi \<le> 10" by simp
  qed
  have rr: "100 \<le> r * r" "r * r \<le> 1000000"
  proof -
    have "10 * 10 \<le> r * r" using r by (intro mult_mono) simp_all
    then show "100 \<le> r * r" by simp
    have "r * r \<le> 1000 * 1000" using r by (intro mult_mono) simp_all
    then show "r * r \<le> 1000000" by simp
  qed
  have "9 / 12 / 1000000 \<le> pi * pi / 12 / (r * r)"
    using pp rr by (intro frac_le) simp_all
  then have q_lo: "75 / 100000000 \<le> q" by (simp add: q_def)
  have "pi * pi / 12 / (r * r) \<le> 10 / 12 / 100"
    using pp rr by (intro frac_le) simp_all
  then have q_hi: "q \<le> 1 / 100" by (simp add: q_def)
  have vI: "\<bar>v - I\<bar> \<le> 1 / 1000000000000" using v by (simp add: I_def)
  with lo hi q_hi qpos have "\<bar>2 - v\<bar> \<le> 1" by linarith
  from rounding_error[OF R this] have "\<bar>z - (2 - v)\<bar> \<le> 1 / 1000000000000"
    by (simp add: z_def)
  with vI have zI: "\<bar>z - (2 - I)\<bar> \<le> 2 / 1000000000000" by linarith
  have E: "E = \<bar>z\<bar>" by (simp add: E_def z_def)
  from zI lo q_lo have E_lo: "(99999 / 100000) * q \<le> E" unfolding E by linarith
  from zI hi lo q_lo have E_hi: "E \<le> (10043 / 10000) * q" unfolding E by linarith
  from E_lo q_lo have Epos: "0 < E" by linarith
  from E_lo q_lo have "1 / 10000000 \<le> E" by linarith
  then show "1 / 10 ^ 7 \<le> \<bar>rnd (2 - v)\<bar>" by (simp add: E_def)
  from E_hi q_hi have "E \<le> 1000" by linarith
  then show "\<bar>rnd (2 - v)\<bar> \<le> 1000" by (simp add: E_def)
  have "ln q = ln (pi * pi / 12) - ln (r * r)"
    unfolding q_def by (rule ln_divide_pos) (use r in simp_all)
  also have "ln (r * r) = ln r + ln r"
    by (rule ln_mult_pos) (use r in simp_all)
  finally have lnq: "ln q = ln (pi * pi / 12) - 2 * ln r" by simp
  have "ln (1 + 43 / 10000 :: real) \<le> 43 / 10000"
    by (rule ln_add_one_self_le_self) simp
  then have u1: "ln (10043 / 10000 :: real) \<le> 43 / 10000" by simp
  have "ln E \<le> ln ((10043 / 10000) * q)"
    using E_hi Epos by (intro ln_mono) simp_all
  also have "\<dots> = ln (10043 / 10000) + ln q"
    by (rule ln_mult_pos) (use qpos in simp_all)
  finally have "ln E \<le> 43 / 10000 + ln q" using u1 by linarith
  then show "ln \<bar>rnd (2 - v)\<bar> \<le> ln (pi * pi / 12) - 2 * ln (real_of_int n) + 43 / 10000"
    by (simp add: E_def lnq r_def)
  have "- (1 / 100000) - 2 * (1 / 100000)\<^sup>2 \<le> ln (1 - 1 / 100000 :: real)"
    by (rule ln_one_minus_pos_lower_bound) simp_all
  then have l1: "- (2 / 100000) \<le> ln (99999 / 100000 :: real)"
    by (simp add: power2_eq_square)
  have "ln ((99999 / 100000) * q) = ln (99999 / 100000) + ln q"
    by (rule ln_mult_pos) (use qpos in simp_all)
  moreover have "ln ((99999 / 100000) * q) \<le> ln E"
    using E_lo qpos by (intro ln_mono) simp_all
  ultimately have "ln q - 2 / 100000 \<le> ln E" using l1 by linarith
  then show "ln (pi * pi / 12) - 2 * ln (real_of_int n) - 2 / 10 ^ 5 \<le> ln \<bar>rnd (2 - v)\<bar>"
    by (simp add: E_def lnq r_def)
qed

lemma exp_ge_power2: "2 ^ k \<le> exp (real k)"
proof -
  have "exp (real k) = exp (real k * 1)" by simp
  also have "\<dots> = exp 1 ^ k" by (rule exp_of_nat_mult)
  finally have e: "exp (real k) = exp 1 ^ k" .
  have "(1::real) + 1 \<le> exp 1" by (rule exp_ge_add_one_self)
  then have "(2::real) ^ k \<le> exp 1 ^ k" by (intro power_mono) simp_all
  then show ?thesis by (simp only: e)
qed

lemma binary64_ln_error:
  "\<forall>x. 1 / 10 ^ 7 \<le> x \<and> x \<le> 1000 \<longrightarrow> \<bar>binary64 (ln x) - ln x\<bar> \<le> 1 / 10 ^ 14"
proof (intro allI impI)
  fix x :: real assume x: "1 / 10 ^ 7 \<le> x \<and> x \<le> 1000"
  then have xpos: "0 < x" by (smt (verit) divide_pos_pos zero_less_power zero_less_one)
  have "(1000::real) \<le> 2 ^ 10" by simp
  also have "\<dots> \<le> exp (real 10)" by (rule exp_ge_power2)
  finally have "x \<le> exp 10" using x by simp
  then have "ln x \<le> ln (exp 10)" using xpos by (intro ln_mono) simp_all
  then have up: "ln x \<le> 24" by simp
  have "(10::real) ^ 7 \<le> 2 ^ 24" by simp
  also have "\<dots> \<le> exp (real 24)" by (rule exp_ge_power2)
  finally have "1 / exp (24::real) \<le> 1 / 10 ^ 7" by (intro divide_left_mono) simp_all
  moreover have "1 / 10 ^ 7 \<le> x" using x by blast
  ultimately have "1 / exp 24 \<le> x" by (rule order_trans)
  then have "exp (- 24) \<le> x" by (simp add: exp_minus inverse_eq_divide)
  then have "ln (exp (- 24)) \<le> ln x" by (intro ln_mono) simp_all
  then have "- 24 \<le> ln x" by simp
  with up have "\<bar>ln x\<bar> \<le> 24" by simp
  then have "\<bar>ln x\<bar> / 2 ^ 53 \<le> 24 / 2 ^ 53" by (intro divide_right_mono) simp_all
  moreover have "\<bar>binary64 (ln x) - ln x\<bar> \<le> \<bar>ln x\<bar> / 2 ^ 53"
    by (rule binary64_relative_error)
  moreover have "(24::real) / 2 ^ 53 \<le> 1 / 10 ^ 14" by simp
  ultimately show "\<bar>binary64 (ln x) - ln x\<bar> \<le> 1 / 10 ^ 14" by linarith
qed

lemma collect_returns: "collect (map (\<lambda>n. Inr (h n)) ns) = Inr (map h ns)"
  by (induction ns) simp_all

lemma sum_list_map_upt: "sum_list (map f [0..<N]) = (\<Sum>i<N. f i)"
  by (induction N) simp_all

lemma map2_map_map: "map2 f (map g ns) (map h ns) = map (\<lambda>n. f (g n) (h n)) ns"
  by (induction ns) simp_all

lemma polyfit1_slope_upt:
  fixes f g :: "nat \<Rightarrow> real"
  shows "polyfit1_slope (map f [0..<N]) (map g [0..<N]) =
     (real N * (\<Sum>i<N. f i * g i) - (\<Sum>i<N. f i) * (\<Sum>i<N. g i))
       / (real N * (\<Sum>i<N. f i * f i) - (\<Sum>i<N. f i) * (\<Sum>i<N. f i))"
  by (simp only: polyfit1_slope_def Let_def map2_map_map sum_list_map_upt length_map length_upt
      diff_zero)

lemma exp_4_le: "exp (4::real) \<le> 100"
proof -
  have "exp (4::real) = exp (real 4 * 1)" by simp
  also have "\<dots> = exp 1 ^ 4" by (rule exp_of_nat_mult)
  also have "\<dots> \<le> 3 ^ 4" by (intro power_mono exp_le) simp
  finally show ?thesis by simp
qed

lemma ln_100_ge: "4 \<le> ln (100::real)"
  using exp_4_le by (simp add: ln_ge_iff)

lemma powerlaw_index_sums:
  fixes V :: "nat \<Rightarrow> real" and rnd g lg :: "real \<Rightarrow> real" and b :: real
  assumes ret: "\<And>i. i < 100 \<Longrightarrow>
      integrate_midpoint rnd (pure_integrand g :: real \<Rightarrow> 'e + real) 0 b (10 + 10 * int i) = Inr (V i)"
  defines "X \<equiv> \<lambda>i. lg (real_of_int (10 + 10 * int i))"
  defines "Y \<equiv> \<lambda>i. lg \<bar>rnd (2 - V i)\<bar>"
  shows "(powerlaw_index rnd g lg b :: 'e error + real) =
     Inr ((real 100 * (\<Sum>i<100. X i * Y i) - (\<Sum>i<100. X i) * (\<Sum>i<100. Y i))
       / (real 100 * (\<Sum>i<100. X i * X i) - (\<Sum>i<100. X i) * (\<Sum>i<100. X i)))"
proof -
  have eq: "map (\<lambda>i. integrate_midpoint rnd (pure_integrand g :: real \<Rightarrow> 'e + real) 0 b
                      (10 + 10 * int i)) [0..<100] =
        map (\<lambda>i. Inr (V i)) [0..<100]"
    by (rule map_cong[OF refl]) (simp add: ret)
  have coll: "collect (map (\<lambda>n. integrate_midpoint rnd (pure_integrand g :: real \<Rightarrow> 'e + real) 0 b n)
                        nvals) =
        Inr (map V [0..<100])"
    unfolding nvals_def map_map comp_def eq by (rule collect_returns)
  have "(powerlaw_index rnd g lg b :: 'e error + real) =
     Inr (polyfit1_slope (map X [0..<100]) (map Y [0..<100]))"
    unfolding powerlaw_index_def coll
    by (simp add: nvals_def X_def Y_def comp_def)
  then show ?thesis
    by (simp only: polyfit1_slope_upt)
qed

text \<open>
  Claim C2. For the sine over \<open>[0, \<pi>]\<close> and \<open>n = 10, 20, \<dots>, 1000\<close> every call returns, every
  error \<open>|2 - I\<^sub>n|\<close> is positive, and the least-squares slope of \<open>ln (error)\<close> against
  \<open>ln n\<close> is within \<open>0.01\<close> of \<open>-2\<close>: for every rounding of relative error at most \<open>2\<^sup>-\<^sup>5\<^sup>3\<close>,
  every sine accurate to \<open>10\<^sup>-\<^sup>1\<^sup>5\<close>, every logarithm accurate to \<open>10\<^sup>-\<^sup>1\<^sup>4\<close> on
  \<open>[10\<^sup>-\<^sup>7, 1000]\<close> and every upper bound within \<open>10\<^sup>-\<^sup>1\<^sup>5\<close> of \<open>\<pi>\<close>.
\<close>

theorem convergence_slope:
  fixes rnd g lg :: "real \<Rightarrow> real"
  assumes R: "\<forall>x. \<bar>rnd x - x\<bar> \<le> \<bar>x\<bar> / 2 ^ 53"
    and G: "\<forall>x. \<bar>g x - sin x\<bar> \<le> 1 / 10 ^ 15"
    and L: "\<forall>x. 1 / 10 ^ 7 \<le> x \<and> x \<le> 1000 \<longrightarrow> \<bar>lg x - ln x\<bar> \<le> 1 / 10 ^ 14"
    and b: "\<bar>b - pi\<bar> \<le> 1 / 10 ^ 15"
  shows "\<exists>slope. (powerlaw_index rnd g lg b :: 'e error + real) = Inr slope
           \<and> \<bar>slope - (- 2)\<bar> < 1 / 100"
proof -
  define V where "V i = projr (integrate_midpoint rnd (pure_integrand g :: real \<Rightarrow> 'e + real) 0 b
                                 (10 + 10 * int i))" for i :: nat
  define X where "X i = lg (real_of_int (10 + 10 * int i))" for i :: nat
  define Y where "Y i = lg \<bar>rnd (2 - V i)\<bar>" for i :: nat
  define c where "c = ln (pi * pi / 12)"
  define e where "e i = Y i - c + 2 * X i" for i
  define D where "D = real 100 * (\<Sum>i<100. X i * X i) - (\<Sum>i<100. X i) * (\<Sum>i<100. X i)"
  define slope where
    "slope = (real 100 * (\<Sum>i<100. X i * Y i) - (\<Sum>i<100. X i) * (\<Sum>i<100. Y i)) / D"
  define z where "z = (X 99 - X 0) * (X 99 - X 0)"
  have V: "integrate_midpoint rnd (pure_integrand g :: real \<Rightarrow> 'e + real) 0 b (10 + 10 * int i)
             = Inr (V i)
           \<and> \<bar>V i - midpoint_sum sin 0 pi (10 + 10 * int i)\<bar> \<le> 1 / 10 ^ 12"
    if "i < 100" for i
  proof -
    have n: "(10::int) \<le> 10 + 10 * int i" "10 + 10 * int i \<le> 1000" "(1::int) \<le> 10 + 10 * int i"
      using that by simp_all
    have "midpoint_sum sin 0 pi (10 + 10 * int i) \<le> 5 / 2"
      by (rule midpoint_sum_sin_error(4)[OF n(1)])
    from integrate_midpoint_sin_error[OF R G b n(3) n(2) this]
    obtain w where w: "integrate_midpoint rnd (pure_integrand g :: real \<Rightarrow> 'e + real) 0 b
                         (10 + 10 * int i) = Inr w"
      and wI: "\<bar>w - midpoint_sum sin 0 pi (10 + 10 * int i)\<bar> \<le> 1 / 10 ^ 12"
      by blast
    have "V i = w" by (simp add: V_def w)
    with w wI show ?thesis by simp
  qed
  have idx: "(powerlaw_index rnd g lg b :: 'e error + real) = Inr slope"
    unfolding slope_def D_def X_def Y_def
    by (rule powerlaw_index_sums) (simp add: V)
  have xb: "\<bar>X i - ln (real_of_int (10 + 10 * int i))\<bar> \<le> 1 / 100000000000000" if "i < 100" for i
  proof -
    have "1 / 10 ^ 7 \<le> real_of_int (10 + 10 * int i) \<and> real_of_int (10 + 10 * int i) \<le> 1000"
      using that by simp
    with L show ?thesis unfolding X_def by (simp del: of_int_add of_int_mult)
  qed
  have "ln 1000 - ln 10 = ln (1000 / 10 :: real)"
    by (rule ln_divide_pos[symmetric]) simp_all
  then have "4 \<le> ln 1000 - ln (10 :: real)"
    using ln_100_ge by simp
  moreover have "\<bar>X 99 - ln 1000\<bar> \<le> 1 / 100000000000000" using xb[of 99] by simp
  moreover have "\<bar>X 0 - ln 10\<bar> \<le> 1 / 100000000000000" using xb[of 0] by simp
  ultimately have "399 / 100 \<le> X 99 - X 0" by linarith
  then have "(399 / 100) * (399 / 100) \<le> (X 99 - X 0) * (X 99 - X 0)"
    by (intro mult_mono) simp_all
  then have z: "1592 / 100 \<le> z" by (simp add: z_def)
  have "real 100 * (X 99 - X 0) * (X 99 - X 0) / 2 \<le> D"
    unfolding D_def by (rule slope_denominator_lower) simp_all
  then have "100 * z / 2 \<le> D" by (simp add: z_def algebra_simps)
  with z have D_lo: "796 \<le> D" by linarith
  then have Dpos: "0 < D" by simp
  have y: "Y i = c + (- 2) * X i + e i" for i
    by (simp add: e_def)
  have eb: "\<bar>e i - 215 / 100000\<bar> \<le> 225 / 100000" if "i < 100" for i
  proof -
    define l where "l = ln (real_of_int (10 + 10 * int i))"
    define E where "E = \<bar>rnd (2 - V i)\<bar>"
    have n: "(10::int) \<le> 10 + 10 * int i" "10 + 10 * int i \<le> 1000"
      using that by simp_all
    from V[OF that] have v: "\<bar>V i - midpoint_sum sin 0 pi (10 + 10 * int i)\<bar> \<le> 1 / 10 ^ 12"
      by blast
    note B = log_error_bounds[OF R n v]
    have "1 / 10 ^ 7 \<le> E \<and> E \<le> 1000" using B(1,2) by (simp add: E_def)
    with L have "\<bar>lg E - ln E\<bar> \<le> 1 / 10 ^ 14" by blast
    then have yb: "\<bar>Y i - ln E\<bar> \<le> 1 / 100000000000000" by (simp add: Y_def E_def)
    have lo: "c - 2 * l - 2 / 100000 \<le> ln E" and hi: "ln E \<le> c - 2 * l + 43 / 10000"
      using B(3,4) by (simp_all add: c_def l_def E_def)
    have "\<bar>X i - l\<bar> \<le> 1 / 100000000000000" using xb[OF that] by (simp add: l_def)
    with yb lo hi show ?thesis unfolding e_def by linarith
  qed
  from slope_perturbation[of 100 Y c "- 2" X e "215 / 100000" "225 / 100000" D 28,
      OF y eb D_def Dpos]
  have "\<bar>slope - (- 2)\<bar> \<le> (225 / 100000) * real 100 * (1 / 28 + 28 / D) / 2"
    by (simp add: slope_def)
  moreover have "28 / D \<le> 28 / 796"
    using D_lo by (intro divide_left_mono) simp_all
  then have "(225 / 100000) * real 100 * (1 / 28 + 28 / D) / 2 < 1 / 100"
    by simp
  ultimately have "\<bar>slope - (- 2)\<bar> < 1 / 100" by linarith
  with idx show ?thesis by blast
qed

text \<open>
  The check in \<open>binary64\<close>, with the correctly rounded sine and logarithm and the float
  nearest to \<open>\<pi>\<close>.
\<close>

theorem convergence_slope_witness:
  "\<exists>slope. (powerlaw_index binary64 (\<lambda>x. binary64 (sin x)) (\<lambda>x. binary64 (ln x)) (binary64 pi)
              :: unit error + real) = Inr slope
          \<and> \<bar>slope - (- 2)\<bar> < 1 / 100"
proof (rule convergence_slope)
  show "\<forall>x. \<bar>binary64 x - x\<bar> \<le> \<bar>x\<bar> / 2 ^ 53"
    by (intro allI binary64_relative_error)
  show "\<forall>x. \<bar>binary64 (sin x) - sin x\<bar> \<le> 1 / 10 ^ 15"
    by (rule binary64_sin_error)
  show "\<forall>x. 1 / 10 ^ 7 \<le> x \<and> x \<le> 1000 \<longrightarrow> \<bar>binary64 (ln x) - ln x\<bar> \<le> 1 / 10 ^ 14"
    by (rule binary64_ln_error)
  show "\<bar>binary64 pi - pi\<bar> \<le> 1 / 10 ^ 15"
    by (rule binary64_pi_error)
qed

end
